theory Spec2Isabelle
  imports Main "HOL-Library.Sublist" "HOL-Library.AList" "HOL-Library.Word"
    "HOL-Library.Char_ord" "HOL-Library.List_Lexorder"
begin

section \<open>Text primitives of the Python sources\<close>

text \<open>
  The three scripts work on the text of \<open>project.pbxproj\<close>. A document is a
  \<open>string\<close>; \<open>sub in s\<close> is \<^const>\<open>sublist\<close>, \<open>s.startswith(p)\<close> is
  \<^const>\<open>prefix\<close>.
\<close>

text \<open>The regular-expression character class \<open>[A-F0-9]\<close>.\<close>

definition is_uuid_char :: "char \<Rightarrow> bool" where
  "is_uuid_char c \<longleftrightarrow> c \<in> set ''ABCDEF0123456789''"

text \<open>\<open>[A-F0-9]{24}\<close> matches at the very start of the text.\<close>

definition uuid_at :: "string \<Rightarrow> bool" where
  "uuid_at s \<longleftrightarrow> 24 \<le> length s \<and> list_all is_uuid_char (take 24 s)"

text \<open>An identifier: 24 characters of that class.\<close>

definition is_uuid :: "string \<Rightarrow> bool" where
  "is_uuid u \<longleftrightarrow> length u = 24 \<and> list_all is_uuid_char u"

text \<open>
  The same match, character by character; it gives \<open>uuid_at\<close> an equation that
  stops at the first character outside the class.
\<close>

fun hex_run :: "nat \<Rightarrow> string \<Rightarrow> bool" where
  "hex_run n s =
     (if n = 0 then True
      else case s of [] \<Rightarrow> False
           | c # cs \<Rightarrow> if is_uuid_char c then hex_run (n - 1) cs else False)"

text \<open>
  \<open>re.findall(r'[A-F0-9]{24}', content)\<close>: the scan goes left to right, a match
  consumes its 24 characters, a position without a match is skipped.
\<close>

fun findall_uuid :: "string \<Rightarrow> string list" where
  "findall_uuid [] = []"
| "findall_uuid (c # cs) =
     (if uuid_at (c # cs) then take 24 (c # cs) # findall_uuid (drop 23 cs)
      else findall_uuid cs)"

text \<open>
  \<open>re.findall(r'([A-F0-9]{24}) = {', content)\<close>: the same scan for an identifier
  directly followed by \<open> = {\<close>; the result holds the group, the identifier.
\<close>

definition definition_at :: "string \<Rightarrow> bool" where
  "definition_at s \<longleftrightarrow> uuid_at s \<and> prefix '' = {'' (drop 24 s)"

fun findall_definitions :: "string \<Rightarrow> string list" where
  "findall_definitions [] = []"
| "findall_definitions (c # cs) =
     (if definition_at (c # cs) then take 24 (c # cs) # findall_definitions (drop 27 cs)
      else findall_definitions cs)"

text \<open>
  \<open>s.replace(old, new)\<close>: every non-overlapping occurrence of \<open>old\<close>, found left to
  right, is replaced. With an empty \<open>old\<close> Python inserts \<open>new\<close> before every
  character and at the end.
\<close>

fun replace :: "string \<Rightarrow> string \<Rightarrow> string \<Rightarrow> string" where
  "replace old new [] = (if old = [] then new else [])"
| "replace old new (c # cs) =
     (if old = [] then new @ c # replace old new cs
      else if prefix old (c # cs) then new @ replace old new (drop (length old - 1) cs)
      else c # replace old new cs)"

text \<open>\<open>s.replace(old, new, 1)\<close>: only the first occurrence.\<close>

fun replace_first :: "string \<Rightarrow> string \<Rightarrow> string \<Rightarrow> string" where
  "replace_first old new [] = (if old = [] then new else [])"
| "replace_first old new (c # cs) =
     (if prefix old (c # cs) then new @ drop (length old) (c # cs)
      else c # replace_first old new cs)"

text \<open>\<open>s.count(sub)\<close>: the number of non-overlapping occurrences.\<close>

fun count_sub :: "string \<Rightarrow> string \<Rightarrow> nat" where
  "count_sub sub [] = (if sub = [] then 1 else 0)"
| "count_sub sub (c # cs) =
     (if sub = [] then Suc (count_sub sub cs)
      else if prefix sub (c # cs) then Suc (count_sub sub (drop (length sub - 1) cs))
      else count_sub sub cs)"

section \<open>fix_xcode_uuid_collisions.py: detection and validation\<close>

text \<open>
  \<open>detect_collisions\<close>. The \<open>defaultdict(int)\<close> is an association list in insertion
  order, as a Python dict is; \<open>uuid_counts[uuid] += 1\<close> reads 0 for a missing key.
\<close>

definition increment :: "string \<Rightarrow> (string \<times> nat) list \<Rightarrow> (string \<times> nat) list" where
  "increment uuid uuid_counts =
     AList.update uuid ((case map_of uuid_counts uuid of None \<Rightarrow> 0 | Some n \<Rightarrow> n) + 1) uuid_counts"

definition uuid_counts :: "string list \<Rightarrow> (string \<times> nat) list" where
  "uuid_counts all_uuids = fold increment all_uuids []"

definition detect_collisions :: "string \<Rightarrow> (string \<times> nat) list" where
  "detect_collisions content =
     filter (\<lambda>(uuid, count). count > 2) (uuid_counts (findall_uuid content))"

text \<open>\<open>validate_uuid_uniqueness\<close>: \<open>len(all_uuids) == len(set(all_uuids))\<close>.\<close>

definition validate_uuid_uniqueness :: "string \<Rightarrow> bool" where
  "validate_uuid_uniqueness content =
     (let all_uuids = findall_uuid content; unique_uuids = set all_uuids
      in length all_uuids = card unique_uuids)"

text \<open>The list \<open>duplicates\<close> that the failing branch prints.\<close>

definition remaining_duplicates :: "string \<Rightarrow> string list" where
  "remaining_duplicates content =
     map fst (filter (\<lambda>(uuid, count). count > 1) (uuid_counts (findall_uuid content)))"

text \<open>\<open>validate_object_references\<close>: \<open>orphaned = all_references - object_definitions\<close>.\<close>

definition orphaned :: "string \<Rightarrow> string set" where
  "orphaned content = set (findall_uuid content) - set (findall_definitions content)"

definition validate_object_references :: "string \<Rightarrow> bool" where
  "validate_object_references content \<longleftrightarrow> orphaned content = {}"

text \<open>\<open>validate_project_structure\<close>.\<close>

definition required_sections :: "string list" where
  "required_sections =
     [''PBXBuildFile'', ''PBXFileReference'', ''PBXGroup'', ''PBXNativeTarget'',
      ''PBXProject'', ''PBXSourcesBuildPhase'']"

definition missing_sections :: "string \<Rightarrow> string list" where
  "missing_sections content =
     filter (\<lambda>section. \<not> sublist (''/* Begin '' @ section @ '' section */'') content)
       required_sections"

definition validate_project_structure :: "string \<Rightarrow> bool" where
  "validate_project_structure content \<longleftrightarrow> missing_sections content = []"

text \<open>\<open>validate_xcode_format\<close>: header, then braces, then parentheses.\<close>

definition file_header :: string where
  "file_header = ''// !$*UTF8*$!''"

definition brace_count :: "string \<Rightarrow> int" where
  "brace_count content =
     int (count_list content (CHR ''{'')) - int (count_list content (CHR ''}''))"

definition paren_count :: "string \<Rightarrow> int" where
  "paren_count content =
     int (count_list content (CHR ''('')) - int (count_list content (CHR '')''))"

definition validate_xcode_format :: "string \<Rightarrow> bool" where
  "validate_xcode_format content =
     (if \<not> prefix file_header content then False
      else if brace_count content \<noteq> 0 then False
      else if paren_count content \<noteq> 0 then False
      else True)"

section \<open>fix_xcode_uuid_collisions.py: the identifier generator\<close>

text \<open>
  \<open>secrets.token_bytes\<close> reads the operating system's random source. The source is
  an input of the model: \<open>entropy\<close> is the finite sequence of bytes it delivers to
  this run. A read beyond its end has the value \<open>None\<close>: the call does not return.
\<close>

type_synonym entropy = "8 word list"

definition token_bytes :: "nat \<Rightarrow> entropy \<Rightarrow> (8 word list \<times> entropy) option" where
  "token_bytes n rnd = (if length rnd < n then None else Some (take n rnd, drop n rnd))"

text \<open>\<open>bytes.hex()\<close>: two lower-case digits for each byte, high nibble first.\<close>

definition hexdigits :: string where
  "hexdigits = ''0123456789abcdef''"

definition hex :: "8 word list \<Rightarrow> string" where
  "hex bs = concat (map (\<lambda>b. [hexdigits ! (unat b div 16), hexdigits ! (unat b mod 16)]) bs)"

text \<open>\<open>str.upper()\<close>, on the ASCII text that \<open>hex\<close> returns.\<close>

definition upper_char :: "char \<Rightarrow> char" where
  "upper_char c =
     (if CHR ''a'' \<le> c \<and> c \<le> CHR ''z'' then char_of (of_char c - (32::nat)) else c)"

definition upper :: "string \<Rightarrow> string" where
  "upper s = map upper_char s"

definition generate_xcode_uuid :: "entropy \<Rightarrow> (string \<times> entropy) option" where
  "generate_xcode_uuid rnd =
     (case token_bytes 12 rnd of
        None \<Rightarrow> None
      | Some (random_bytes, rnd') \<Rightarrow> Some (upper (hex random_bytes), rnd'))"

text \<open>
  \<open>generate_unique_uuid_set\<close>: the loop \<open>while len(uuids) < count\<close>, one draw for
  each iteration.
\<close>

function generate_unique_uuid_loop ::
  "int \<Rightarrow> string set \<Rightarrow> string set \<Rightarrow> entropy \<Rightarrow> string set option" where
  "generate_unique_uuid_loop count existing_uuids uuids rnd =
     (if int (card uuids) < count then
        (case generate_xcode_uuid rnd of
           None \<Rightarrow> None
         | Some (uuid, rnd') \<Rightarrow>
             if uuid \<notin> existing_uuids \<and> uuid \<notin> uuids
             then generate_unique_uuid_loop count existing_uuids (insert uuid uuids) rnd'
             else generate_unique_uuid_loop count existing_uuids uuids rnd')
      else Some uuids)"
  by pat_completeness auto
termination
  by (relation "measure (\<lambda>(count, existing_uuids, uuids, rnd). length rnd)")
    (auto simp: generate_xcode_uuid_def token_bytes_def split: if_splits)

definition generate_unique_uuid_set :: "int \<Rightarrow> string set \<Rightarrow> entropy \<Rightarrow> string set option" where
  "generate_unique_uuid_set count existing_uuids rnd =
     generate_unique_uuid_loop count existing_uuids {} rnd"

text \<open>The identifiers that the random source yields, draw after draw.\<close>

function draws :: "entropy \<Rightarrow> string list" where
  "draws rnd =
     (case generate_xcode_uuid rnd of
        None \<Rightarrow> []
      | Some (uuid, rnd') \<Rightarrow> uuid # draws rnd')"
  by pat_completeness auto
termination
  by (relation "measure length")
    (auto simp: generate_xcode_uuid_def token_bytes_def split: if_splits)

section \<open>fix_xcode_uuid_collisions.py: replacement and rewriting\<close>

text \<open>The table \<open>known_collisions\<close>, in the insertion order of the dict.\<close>

definition known_collisions :: "(string \<times> string \<times> string) list" where
  "known_collisions =
     [(''A1000001000000000000001A'', ''Core'', ''StreamApp.swift''),
      (''A1000001000000000000008A'', ''Onboarding'', ''MainTabView.swift''),
      (''A1000001000000000000007A'', ''Components'', ''WalletConnectView.swift''),
      (''A1000001000000000000006E'', ''Authentication'', ''AuthenticationView.swift''),
      (''A1000001000000000000006A'', ''Views'', ''WorkSessionViewModel.swift''),
      (''A1000001000000000000005A'', ''ViewModels'', ''ZKProofService.swift''),
      (''A1000001000000000000003E'', ''Security'', ''BiometricAuthService.swift''),
      (''A1000001000000000000003A'', ''Resources'', ''StreamColors.swift''),
      (''A1000001000000000000002E'', ''Network'', ''APIService.swift''),
      (''A1000001000000000000002A'', ''Models'', ''Attestation.swift'')]"

record replacement =
  old_uuid :: string
  new_group_uuid :: string
  group_name :: string
  associated_file :: string

text \<open>
  \<open>generate_replacement_uuids\<close>. \<open>list(new_uuids)\<close> lists a Python set in an order
  the language leaves open; the order is the parameter \<open>list_of\<close>, and
  \<open>set_order\<close> says what every such listing satisfies. The set has as many
  elements as the table has keys, so \<open>new_uuid_list[i]\<close> is always in range.
\<close>

definition set_order :: "(string set \<Rightarrow> string list) \<Rightarrow> bool" where
  "set_order list_of \<longleftrightarrow>
     (\<forall>S. finite S \<longrightarrow> set (list_of S) = S \<and> distinct (list_of S))"

definition generate_replacement_uuids ::
  "(string set \<Rightarrow> string list) \<Rightarrow> string \<Rightarrow> entropy \<Rightarrow> (string \<times> replacement) list option" where
  "generate_replacement_uuids list_of text rnd =
     (let existing_uuids = set (findall_uuid text)
      in case generate_unique_uuid_set (int (length known_collisions)) existing_uuids rnd of
           None \<Rightarrow> None
         | Some new_uuids \<Rightarrow>
             let new_uuid_list = list_of new_uuids
             in Some (map (\<lambda>((old, name, file), new).
                        (old, \<lparr>old_uuid = old, new_group_uuid = new,
                               group_name = name, associated_file = file\<rparr>))
                      (zip known_collisions new_uuid_list)))"

text \<open>
  \<open>fix_group_definitions\<close>. The pattern is
  \<open>(OLD = {[^}]+isa = PBXGroup[^}]+})\<close>. Neither \<open>[^}]+\<close> can pass a closing brace,
  so a match that starts at a given place ends at the first \<open>}\<close> after the opening
  one, and it exists when the text between the two braces holds \<open>isa = PBXGroup\<close>
  with at least one character on either side (\<open>inside\<close>).
\<close>

definition inside :: "string \<Rightarrow> string \<Rightarrow> bool" where
  "inside p s \<longleftrightarrow> sublist p (butlast (tl s))"

definition match_group_definition :: "string \<Rightarrow> string \<Rightarrow> string option" where
  "match_group_definition old s =
     (if prefix (old @ '' = {'') s then
        let rest = drop (length old + 4) s;
            body = takeWhile (\<lambda>c. c \<noteq> CHR ''}'') rest
        in if length body < length rest \<and> inside ''isa = PBXGroup'' body
           then Some (old @ '' = {'' @ body @ ''}'')
           else None
      else None)"

text \<open>\<open>re.search\<close>: the leftmost place with a match.\<close>

fun search_group_definition :: "string \<Rightarrow> string \<Rightarrow> string option" where
  "search_group_definition old [] = match_group_definition old []"
| "search_group_definition old (c # cs) =
     (case match_group_definition old (c # cs) of
        Some m \<Rightarrow> Some m
      | None \<Rightarrow> search_group_definition old cs)"

definition fix_group_definition :: "replacement \<Rightarrow> string \<Rightarrow> string" where
  "fix_group_definition mapping text =
     (case search_group_definition (old_uuid mapping) text of
        Some m \<Rightarrow>
          replace m (replace_first (old_uuid mapping) (new_group_uuid mapping) m) text
      | None \<Rightarrow> text)"

definition fix_group_definitions :: "(string \<times> replacement) list \<Rightarrow> string \<Rightarrow> string" where
  "fix_group_definitions collision_map text =
     fold (\<lambda>(old, mapping). fix_group_definition mapping) collision_map text"

text \<open>
  \<open>fix_parent_references\<close>. The pattern is \<open>(children = \([^)]*)OLD([^)]*\))\<close>. The
  first group is greedy, so within the text up to the first \<open>)\<close> it stops before the
  last occurrence of \<open>OLD\<close>; \<open>findall\<close> returns the two groups of every match.
\<close>

fun rfind :: "string \<Rightarrow> string \<Rightarrow> nat option" where
  "rfind sub [] = (if sub = [] then Some 0 else None)"
| "rfind sub (c # cs) =
     (case rfind sub cs of
        Some k \<Rightarrow> Some (Suc k)
      | None \<Rightarrow> if prefix sub (c # cs) then Some 0 else None)"

definition match_children :: "string \<Rightarrow> string \<Rightarrow> (string \<times> string) option" where
  "match_children old s =
     (if prefix ''children = ('' s then
        let rest = drop 12 s;
            region = takeWhile (\<lambda>c. c \<noteq> CHR '')'') rest
        in if length region < length rest then
             (case rfind old region of
                Some k \<Rightarrow>
                  Some (''children = ('' @ take k region, drop (k + length old) region @ '')'')
              | None \<Rightarrow> None)
           else None
      else None)"

fun findall_children :: "string \<Rightarrow> string \<Rightarrow> (string \<times> string) list" where
  "findall_children old [] = []"
| "findall_children old (c # cs) =
     (case match_children old (c # cs) of
        Some (g1, g2) \<Rightarrow>
          (g1, g2) # findall_children old (drop (length g1 + length old + length g2 - 1) cs)
      | None \<Rightarrow> findall_children old cs)"

text \<open>
  Each match is put back between a second \<open>children = (\<close> and a second \<open>)\<close>, as the
  two f-strings of the source do, and that text is what \<open>replace\<close> looks for.
\<close>

definition fix_parent_reference :: "replacement \<Rightarrow> string \<Rightarrow> string" where
  "fix_parent_reference mapping text =
     fold (\<lambda>(m0, m1).
             replace (''children = ('' @ m0 @ old_uuid mapping @ m1 @ '')'')
                     (''children = ('' @ m0 @ new_group_uuid mapping @ m1 @ '')''))
       (findall_children (old_uuid mapping) text) text"

definition fix_parent_references :: "(string \<times> replacement) list \<Rightarrow> string \<Rightarrow> string" where
  "fix_parent_references collision_map text =
     fold (\<lambda>(old, mapping). fix_parent_reference mapping) collision_map text"

section \<open>fix_xcode_uuid_collisions.py: saving, rollback and the run\<close>

text \<open>
  The file system as far as the scripts see it: the content of \<open>project.pbxproj\<close>
  (\<open>None\<close> when it cannot be opened or decoded), whether a write of that file by
  the run succeeds, and how many times the run has written it.
\<close>

record world =
  pbxproj :: "string option"
  writable :: bool
  writes :: nat

text \<open>
  \<open>load_project\<close> opens the file in text mode, so \<open>f.read()\<close> returns its content
  with every CR LF and every other CR turned into LF. The scripts name a path on
  macOS, where writing in text mode leaves the text as it is.
\<close>

fun universal_newlines :: "string \<Rightarrow> string" where
  "universal_newlines [] = []"
| "universal_newlines [c] = (if c = CHR 0x0D then [CHR 0x0A] else [c])"
| "universal_newlines (c # d # cs) =
     (if c = CHR 0x0D \<and> d = CHR 0x0A then CHR 0x0A # universal_newlines cs
      else if c = CHR 0x0D then CHR 0x0A # universal_newlines (d # cs)
      else c # universal_newlines (d # cs))"

definition load_project :: "world \<Rightarrow> string option" where
  "load_project w = map_option universal_newlines (pbxproj w)"

text \<open>
  \<open>save_project\<close> writes a temporary file beside \<open>project.pbxproj\<close> and moves it
  over that file; an exception on the way is caught and leaves the file as it was.
\<close>

definition save_project :: "string \<Rightarrow> world \<Rightarrow> bool \<times> world" where
  "save_project text w =
     (if writable w then (True, w\<lparr>pbxproj := Some text, writes := writes w + 1\<rparr>)
      else (False, w))"

text \<open>\<open>rollback\<close>: \<open>self.content = self.original_content\<close>, then \<open>save_project\<close>.\<close>

definition rollback :: "string \<Rightarrow> world \<Rightarrow> world" where
  "rollback original_content w = snd (save_project original_content w)"

datatype validation = Uniqueness | References | Structure | Format

datatype outcome = NoCollisions | Fixed | ValidationFailed validation | SaveFailed | CriticalError

text \<open>The value \<open>fix_project\<close> returns.\<close>

fun success :: "outcome \<Rightarrow> bool" where
  "success NoCollisions = True"
| "success Fixed = True"
| "success _ = False"

text \<open>Phase 4: the four checks, in the order \<open>fix_project\<close> runs them.\<close>

definition validated :: "string \<Rightarrow> bool" where
  "validated text \<longleftrightarrow>
     validate_uuid_uniqueness text \<and> validate_object_references text \<and>
     validate_project_structure text \<and> validate_xcode_format text"

text \<open>Phases 2 and 3: the working copy after the rewrite.\<close>

definition apply_fixes ::
  "(string set \<Rightarrow> string list) \<Rightarrow> entropy \<Rightarrow> string \<Rightarrow> string option" where
  "apply_fixes list_of rnd text =
     (case generate_replacement_uuids list_of text rnd of
        None \<Rightarrow> None
      | Some collision_map \<Rightarrow>
          Some (fix_parent_references collision_map (fix_group_definitions collision_map text)))"

text \<open>
  \<open>fix_project\<close>. A failing \<open>load_project\<close> raises; the handler rolls back with
  \<open>original_content\<close> still empty. The result \<open>None\<close> is a run that does not return.
\<close>

definition fix_project ::
  "(string set \<Rightarrow> string list) \<Rightarrow> entropy \<Rightarrow> world \<Rightarrow> (outcome \<times> world) option" where
  "fix_project list_of rnd w =
     (case load_project w of
        None \<Rightarrow> Some (CriticalError, rollback [] w)
      | Some original_content \<Rightarrow>
          if detect_collisions original_content = [] then Some (NoCollisions, w)
          else
            (case apply_fixes list_of rnd original_content of
               None \<Rightarrow> None
             | Some fixed \<Rightarrow>
                 if \<not> validate_uuid_uniqueness fixed
                 then Some (ValidationFailed Uniqueness, rollback original_content w)
                 else if \<not> validate_object_references fixed
                 then Some (ValidationFailed References, rollback original_content w)
                 else if \<not> validate_project_structure fixed
                 then Some (ValidationFailed Structure, rollback original_content w)
                 else if \<not> validate_xcode_format fixed
                 then Some (ValidationFailed Format, rollback original_content w)
                 else
                   (case save_project fixed w of
                      (True, w') \<Rightarrow> Some (Fixed, w')
                    | (False, w') \<Rightarrow> Some (SaveFailed, rollback original_content w'))))"

section \<open>fix_xcode_uuid_precise.py\<close>

text \<open>
  The table \<open>collision_fixes\<close>: identifier and \<open>group_name\<close>, in insertion order
  (the entry \<open>line_pattern\<close> is never read).
\<close>

definition collision_fixes :: "(string \<times> string) list" where
  "collision_fixes =
     [(''A1000001000000000000001A'', ''Core''),
      (''A1000001000000000000002A'', ''Models''),
      (''A1000001000000000000002E'', ''Network''),
      (''A1000001000000000000003A'', ''Resources''),
      (''A1000001000000000000003E'', ''Security''),
      (''A1000001000000000000005A'', ''ViewModels''),
      (''A1000001000000000000006A'', ''Views''),
      (''A1000001000000000000006E'', ''Authentication''),
      (''A1000001000000000000007A'', ''Components''),
      (''A1000001000000000000008A'', ''Onboarding'')]"

text \<open>The inner loop \<open>while True\<close> of \<open>generate_replacement_uuids\<close>.\<close>

function mint :: "string set \<Rightarrow> entropy \<Rightarrow> (string \<times> entropy) option" where
  "mint existing_uuids rnd =
     (case generate_xcode_uuid rnd of
        None \<Rightarrow> None
      | Some (new_uuid, rnd') \<Rightarrow>
          if new_uuid \<notin> existing_uuids then Some (new_uuid, rnd')
          else mint existing_uuids rnd')"
  by pat_completeness auto
termination
  by (relation "measure (\<lambda>(existing_uuids, rnd). length rnd)")
    (auto simp: generate_xcode_uuid_def token_bytes_def split: if_splits)

text \<open>The outer loop over the table; every new identifier joins \<open>existing_uuids\<close>.\<close>

fun precise_replacement_loop ::
  "(string \<times> string) list \<Rightarrow> string set \<Rightarrow> entropy \<Rightarrow> (string \<times> string) list option" where
  "precise_replacement_loop [] existing_uuids rnd = Some []"
| "precise_replacement_loop ((old, info) # rest) existing_uuids rnd =
     (case mint existing_uuids rnd of
        None \<Rightarrow> None
      | Some (new_uuid, rnd') \<Rightarrow>
          (case precise_replacement_loop rest (insert new_uuid existing_uuids) rnd' of
             None \<Rightarrow> None
           | Some replacement_map \<Rightarrow> Some ((old, new_uuid) # replacement_map)))"

definition precise_generate_replacement_uuids ::
  "string \<Rightarrow> entropy \<Rightarrow> (string \<times> string) list option" where
  "precise_generate_replacement_uuids text rnd =
     precise_replacement_loop collision_fixes (set (findall_uuid text)) rnd"

text \<open>
  \<open>fix_group_definitions\<close> and \<open>fix_parent_references\<close> of the precise fixer work on
  literal text. \<open>self.collision_fixes[old_uuid]\<close> raises \<open>KeyError\<close> for a key the
  table does not have: the value \<open>None\<close>.
\<close>

fun precise_fix_group_definitions :: "(string \<times> string) list \<Rightarrow> string \<Rightarrow> string option" where
  "precise_fix_group_definitions [] text = Some text"
| "precise_fix_group_definitions ((old, new) # rest) text =
     (case map_of collision_fixes old of
        None \<Rightarrow> None
      | Some name \<Rightarrow>
          let old_line_pattern = old @ '' /* '' @ name @ '' */ = {'';
              new_line_pattern = new @ '' /* '' @ name @ '' */ = {''
          in precise_fix_group_definitions rest
               (if sublist old_line_pattern text
                then replace old_line_pattern new_line_pattern text else text))"

fun precise_fix_parent_references :: "(string \<times> string) list \<Rightarrow> string \<Rightarrow> string option" where
  "precise_fix_parent_references [] text = Some text"
| "precise_fix_parent_references ((old, new) # rest) text =
     (case map_of collision_fixes old of
        None \<Rightarrow> None
      | Some name \<Rightarrow>
          let old_ref_pattern = old @ '' /* '' @ name @ '' */'';
              new_ref_pattern = new @ '' /* '' @ name @ '' */'';
              occurrences = count_sub old_ref_pattern text
          in precise_fix_parent_references rest
               (if occurrences > 0
                then replace old_ref_pattern new_ref_pattern text else text))"

text \<open>\<open>validate_fix\<close>: no identifier of the table occurs more than twice.\<close>

definition remaining_collisions :: "string \<Rightarrow> (string \<times> nat) list" where
  "remaining_collisions text =
     filter (\<lambda>(old, count). count > 2)
       (map (\<lambda>(old, info). (old, count_sub old text)) collision_fixes)"

definition validate_fix :: "string \<Rightarrow> bool" where
  "validate_fix text \<longleftrightarrow> remaining_collisions text = []"

text \<open>
  \<open>save_project\<close> of the precise fixer opens \<open>project.pbxproj\<close> itself for writing;
  a write that fails is taken to fail at once and to leave the file as it was.
  \<open>rollback\<close> assigns \<open>original_content\<close> and calls it. \<open>load_project\<close> is that of
  the other fixer without its handler.
\<close>

definition precise_save_project :: "string \<Rightarrow> world \<Rightarrow> bool \<times> world" where
  "precise_save_project text w =
     (if writable w then (True, w\<lparr>pbxproj := Some text, writes := writes w + 1\<rparr>)
      else (False, w))"

definition precise_rollback :: "string \<Rightarrow> world \<Rightarrow> world" where
  "precise_rollback original_content w = snd (precise_save_project original_content w)"

datatype precise_outcome = PreciseFixed | PreciseValidationFailed | PreciseSaveFailed | PreciseError

definition precise_apply_fixes :: "entropy \<Rightarrow> string \<Rightarrow> string option option" where
  "precise_apply_fixes rnd text =
     (case precise_generate_replacement_uuids text rnd of
        None \<Rightarrow> None
      | Some replacement_map \<Rightarrow>
          Some (case precise_fix_group_definitions replacement_map text of
                  None \<Rightarrow> None
                | Some text' \<Rightarrow> precise_fix_parent_references replacement_map text'))"

text \<open>
  \<open>fix_project\<close> of the precise fixer. \<open>precise_apply_fixes\<close> is \<open>None\<close> for a run
  that does not return and \<open>Some None\<close> for one that raised.
\<close>

definition precise_fix_project :: "entropy \<Rightarrow> world \<Rightarrow> (precise_outcome \<times> world) option" where
  "precise_fix_project rnd w =
     (case load_project w of
        None \<Rightarrow> Some (PreciseError, precise_rollback [] w)
      | Some original_content \<Rightarrow>
          (case precise_apply_fixes rnd original_content of
             None \<Rightarrow> None
           | Some None \<Rightarrow> Some (PreciseError, precise_rollback original_content w)
           | Some (Some fixed) \<Rightarrow>
               if \<not> validate_fix fixed
               then Some (PreciseValidationFailed, precise_rollback original_content w)
               else
                 (case precise_save_project fixed w of
                    (True, w') \<Rightarrow> Some (PreciseFixed, w')
                  | (False, w') \<Rightarrow> Some (PreciseSaveFailed, precise_rollback original_content w'))))"

section \<open>fix_infoplist_conflict.py\<close>

definition infoplist_buildfile_line :: string where
  "infoplist_buildfile_line =
     ''0DD18F0E2E7FBB1900A893D7 /* Info.plist in Resources */ = {isa = PBXBuildFile; fileRef = 0DD18F062E7FBB1900A893D7 /* Info.plist */; };''"

definition infoplist_resource_line :: string where
  "infoplist_resource_line = ''0DD18F0E2E7FBB1900A893D7 /* Info.plist in Resources */,''"

definition infoplist_setting :: string where
  "infoplist_setting = ''INFOPLIST_FILE = StreamApp/Info.plist;''"

text \<open>Steps 1 and 2: the line is removed when the text holds it.\<close>

definition remove_buildfile_entry :: "string \<Rightarrow> string" where
  "remove_buildfile_entry text =
     (if sublist infoplist_buildfile_line text
      then replace infoplist_buildfile_line [] text else text)"

definition remove_resource_entry :: "string \<Rightarrow> string" where
  "remove_resource_entry text =
     (if sublist infoplist_resource_line text
      then replace infoplist_resource_line [] text else text)"

text \<open>Step 3: \<open>GENERATE_INFOPLIST_FILE\<close> from \<open>YES\<close> to \<open>NO\<close>.\<close>

definition disable_auto_generation :: "string \<Rightarrow> string" where
  "disable_auto_generation text =
     replace ''GENERATE_INFOPLIST_FILE = YES;'' ''GENERATE_INFOPLIST_FILE = NO;'' text"

text \<open>Step 4: the setting is added after a newline and four tabs.\<close>

definition add_infoplist_setting :: "string \<Rightarrow> string" where
  "add_infoplist_setting text =
     replace ''GENERATE_INFOPLIST_FILE = NO;''
       (''GENERATE_INFOPLIST_FILE = NO;'' @ [CHR 0x0A, CHR 0x09, CHR 0x09, CHR 0x09, CHR 0x09]
          @ infoplist_setting) text"

text \<open>The four steps in the order of the script, on the text it read.\<close>

definition fix_infoplist_text :: "string \<Rightarrow> string" where
  "fix_infoplist_text text =
     add_infoplist_setting (disable_auto_generation
       (remove_resource_entry (remove_buildfile_entry text)))"

section \<open>The patterns of the precise fixer\<close>

text \<open>
  The comment that follows the identifier in both patterns of the precise fixer,
  and the shape that every such comment has: it starts and ends with a character
  that no identifier has, and holds no two characters of identifiers side by side.
\<close>

definition ref_tag :: "string \<Rightarrow> string" where
  "ref_tag name = '' /* '' @ name @ '' */''"

fun no_adjacent_hex :: "string \<Rightarrow> bool" where
  "no_adjacent_hex (a # b # cs) \<longleftrightarrow> \<not> (is_uuid_char a \<and> is_uuid_char b) \<and> no_adjacent_hex (b # cs)"
| "no_adjacent_hex _ \<longleftrightarrow> True"

definition tag :: "string \<Rightarrow> bool" where
  "tag t \<longleftrightarrow> t \<noteq> [] \<and> \<not> is_uuid_char (hd t) \<and> \<not> is_uuid_char (last t) \<and> no_adjacent_hex t"

section \<open>Sample inputs\<close>

text \<open>
  A random source whose first draw is the second key of \<open>known_collisions\<close>, the
  set of identifiers it yields in sorted order, and a project whose repair is saved:
  its three occurrences of the first key end as three different identifiers.
\<close>

definition sample_entropy :: entropy where
  "sample_entropy =
     [0xA1, 0x00, 0x00, 0x01, 0x00, 0x00, 0x00, 0x00, 0x00, 0x00, 0x00, 0x8A,
      0xB0, 0, 0, 0, 0, 0, 0, 0, 0, 0, 0, 1,  0xB0, 0, 0, 0, 0, 0, 0, 0, 0, 0, 0, 2,
      0xB0, 0, 0, 0, 0, 0, 0, 0, 0, 0, 0, 3,  0xB0, 0, 0, 0, 0, 0, 0, 0, 0, 0, 0, 4,
      0xB0, 0, 0, 0, 0, 0, 0, 0, 0, 0, 0, 5,  0xB0, 0, 0, 0, 0, 0, 0, 0, 0, 0, 0, 6,
      0xB0, 0, 0, 0, 0, 0, 0, 0, 0, 0, 0, 7,  0xB0, 0, 0, 0, 0, 0, 0, 0, 0, 0, 0, 8,
      0xB0, 0, 0, 0, 0, 0, 0, 0, 0, 0, 0, 9]"

definition sample_new_uuids :: "string list" where
  "sample_new_uuids =
     [''A1000001000000000000008A'', ''B00000000000000000000001'', ''B00000000000000000000002'',
      ''B00000000000000000000003'', ''B00000000000000000000004'', ''B00000000000000000000005'',
      ''B00000000000000000000006'', ''B00000000000000000000007'', ''B00000000000000000000008'',
      ''B00000000000000000000009'']"

definition sample_collision_map :: "(string \<times> replacement) list" where
  "sample_collision_map =
     map (\<lambda>((old, name, file), new).
            (old, \<lparr>old_uuid = old, new_group_uuid = new, group_name = name, associated_file = file\<rparr>))
       (zip known_collisions sample_new_uuids)"

definition sample_sections :: string where
  "sample_sections = ''// !$*UTF8*$! /* Begin PBXBuildFile section */ /* Begin PBXFileReference section */ /* Begin PBXGroup section */ /* Begin PBXNativeTarget section */ /* Begin PBXProject section */ /* Begin PBXSourcesBuildPhase section */ ''"

definition sample_project :: string where
  "sample_project = sample_sections @
     ''children = (A1000001000000000000001A = {}) A1000001000000000000001A = { isa = PBXGroup } children = (children = (A1000001000000000000001A = {}))''"

definition sample_regrouped :: string where
  "sample_regrouped = sample_sections @
     ''children = (A1000001000000000000001A = {}) B00000000000000000000001 = { isa = PBXGroup } children = (children = (A1000001000000000000001A = {}))''"

definition sample_fixed :: string where
  "sample_fixed = sample_sections @
     ''children = (A1000001000000000000001A = {}) B00000000000000000000001 = { isa = PBXGroup } children = (children = (A1000001000000000000008A = {}))''"

definition sample_world :: world where
  "sample_world = \<lparr>pbxproj = Some sample_project, writable = True, writes = 0\<rparr>"

text \<open>
  A file with CR LF line ends whose repair is rejected: the group definition gets a
  new identifier and three more occurrences of the old one stay. Then the text that
  \<open>load_project\<close> reads from it, and that text after the rewrite.
\<close>

definition sample_rejected :: string where
  "sample_rejected =
     ''A1000001000000000000001A = { isa = PBXGroup }'' @ [CHR 0x0D, CHR 0x0A] @
     ''A1000001000000000000001A A1000001000000000000001A A1000001000000000000001A'' @
     [CHR 0x0D, CHR 0x0A]"

definition sample_rejected_text :: string where
  "sample_rejected_text =
     ''A1000001000000000000001A = { isa = PBXGroup }'' @ [CHR 0x0A] @
     ''A1000001000000000000001A A1000001000000000000001A A1000001000000000000001A'' @
     [CHR 0x0A]"

definition sample_rejected_fixed :: string where
  "sample_rejected_fixed =
     ''B00000000000000000000001 = { isa = PBXGroup }'' @ [CHR 0x0A] @
     ''A1000001000000000000001A A1000001000000000000001A A1000001000000000000001A'' @
     [CHR 0x0A]"

definition sample_rejected_world :: world where
  "sample_rejected_world = \<lparr>pbxproj = Some sample_rejected, writable = True, writes = 0\<rparr>"

definition sample_unrepairable :: string where
  "sample_unrepairable =
     ''A1000001000000000000001A A1000001000000000000001A A1000001000000000000001A''"

text \<open>The mapping of the precise fixer under the same random source.\<close>

definition sample_precise_map :: "(string \<times> string) list" where
  "sample_precise_map = zip (map fst collision_fixes) sample_new_uuids"

text \<open>
  For the precise fixer: two more random sources, a project with its saved repair,
  and a text in which the last identifier of the table follows a digit.
\<close>

definition sample_second_entropy :: entropy where
  "sample_second_entropy =
     drop 12 sample_entropy @ [0xB0, 0, 0, 0, 0, 0, 0, 0, 0, 0, 0, 0x0A]"

definition sample_rotated_entropy :: entropy where
  "sample_rotated_entropy = drop 12 sample_entropy @ take 12 sample_entropy"

definition sample_precise_project :: string where
  "sample_precise_project =
     ''A1000001000000000000001A /* Core */ = {isa = PBXGroup; }; children = (A1000001000000000000001A /* Core */, );''"

definition sample_precise_fixed :: string where
  "sample_precise_fixed =
     ''A1000001000000000000008A /* Core */ = {isa = PBXGroup; }; children = (A1000001000000000000008A /* Core */, );''"

definition sample_precise_world :: world where
  "sample_precise_world = \<lparr>pbxproj = Some sample_precise_project, writable = True, writes = 0\<rparr>"

definition sample_misaligned :: string where
  "sample_misaligned = ''0A1000001000000000000008A /* Onboarding */''"

section \<open>Equations for evaluation\<close>

declare generate_unique_uuid_loop.simps [simp del]
declare draws.simps [simp del]
declare mint.simps [simp del]


declare hex_run.simps [simp del]

lemma hex_run_iff: "hex_run n s \<longleftrightarrow> n \<le> length s \<and> list_all is_uuid_char (take n s)"
proof (induction n s rule: hex_run.induct)
  case (1 n s)
  show ?case
  proof (cases "n = 0")
    case True
    then show ?thesis by (simp add: hex_run.simps)
  next
    case False
    then obtain m where m: "n = Suc m" by (cases n) auto
    show ?thesis
    proof (cases s)
      case Nil
      with False show ?thesis by (simp add: hex_run.simps)
    next
      case (Cons c cs)
      with 1 [OF False Cons] m show ?thesis
        by (cases "is_uuid_char c") (simp_all add: hex_run.simps [of "Suc m" "c # cs"])
    qed
  qed
qed

lemma uuid_at_code [code]: "uuid_at s = hex_run 24 s"
  by (simp add: uuid_at_def hex_run_iff)

lemma definition_at_code [code]:
  "definition_at s = (if uuid_at s then prefix '' = {'' (drop 24 s) else False)"
  by (simp add: definition_at_def)

lemma prefix_if [code]:
  "prefix [] ys \<longleftrightarrow> True"
  "prefix (x # xs) [] \<longleftrightarrow> False"
  "prefix (x # xs) (y # ys) \<longleftrightarrow> (if x = y then prefix xs ys else False)"
  by simp_all

lemma sublist_if [code]:
  "sublist [] ys \<longleftrightarrow> True"
  "sublist (x # xs) [] \<longleftrightarrow> False"
  "sublist (x # xs) (y # ys) \<longleftrightarrow>
     (if prefix (x # xs) (y # ys) then True else sublist (x # xs) ys)"
  by (auto simp: sublist_Cons_right)

section \<open>The two scans\<close>

lemma uuid_at_take: "uuid_at s \<Longrightarrow> is_uuid (take 24 s)"
  by (simp add: uuid_at_def is_uuid_def)

lemma uuid_at_append: "is_uuid u \<Longrightarrow> uuid_at (u @ s)"
  by (simp add: uuid_at_def is_uuid_def)

lemma findall_uuid_is_uuid: "u \<in> set (findall_uuid s) \<Longrightarrow> is_uuid u"
proof (induction s rule: findall_uuid.induct)
  case 1
  then show ?case by simp
next
  case (2 c cs)
  then show ?case
    using uuid_at_take [of "c # cs"] by (auto split: if_splits)
qed

lemma definition_at_split:
  assumes "definition_at s"
  shows "s = take 24 s @ '' = {'' @ drop 28 s" and "is_uuid (take 24 s)"
proof -
  from assms have u: "uuid_at s" and p: "prefix '' = {'' (drop 24 s)"
    by (simp_all add: definition_at_def)
  from p obtain r where r: "drop 24 s = '' = {'' @ r"
    by (auto simp: prefix_def)
  have "drop 28 s = drop 4 (drop 24 s)" by simp
  also have "\<dots> = r" by (simp add: r)
  finally have d: "drop 28 s = r" .
  have "s = take 24 s @ drop 24 s" by simp
  then show "s = take 24 s @ '' = {'' @ drop 28 s"
    by (simp only: r d)
  from u show "is_uuid (take 24 s)" by (rule uuid_at_take)
qed

lemma definition_at_append: "is_uuid u \<Longrightarrow> definition_at (u @ '' = {'' @ r)"
  by (simp add: definition_at_def uuid_at_def is_uuid_def)

lemma findall_definitions_sound:
  "u \<in> set (findall_definitions s) \<Longrightarrow> is_uuid u \<and> sublist (u @ '' = {'') s"
proof (induction s rule: findall_definitions.induct)
  case 1
  then show ?case by simp
next
  case (2 c cs)
  show ?case
  proof (cases "definition_at (c # cs)")
    case True
    note sp = definition_at_split [OF True]
    from 2(3) True have "u = take 24 (c # cs) \<or> u \<in> set (findall_definitions (drop 27 cs))"
      by simp
    then show ?thesis
    proof
      assume e: "u = take 24 (c # cs)"
      have "sublist (u @ '' = {'') (u @ '' = {'' @ drop 28 (c # cs))"
        by (metis append.assoc sublist_append_rightI)
      with sp e show ?thesis by metis
    next
      assume "u \<in> set (findall_definitions (drop 27 cs))"
      with 2(1) True have ih: "is_uuid u \<and> sublist (u @ '' = {'') (drop 27 cs)" by blast
      have "sublist (drop 27 cs) (c # cs)"
        by (metis sublist_Cons_right sublist_drop)
      with ih show ?thesis using sublist_order.order_trans by blast
    qed
  next
    case False
    with 2 show ?thesis
      by (auto simp: sublist_Cons_right)
  qed
qed

lemma definition_skip:
  assumes d: "definition_at s" and u: "is_uuid u" and sub: "sublist (u @ '' = {'') s"
  shows "u = take 24 s \<or> sublist (u @ '' = {'') (drop 28 s)"
proof -
  note sp = definition_at_split [OF d]
  have nonhex: "\<not> is_uuid_char (s ! k)" if "24 \<le> k" "k < 28" for k
  proof -
    have l: "length (take 24 s) = 24"
      using sp(2) by (simp add: is_uuid_def)
    have "s ! k = (take 24 s @ '' = {'' @ drop 28 s) ! k"
      using sp(1) by simp
    also have "\<dots> = ('' = {'' @ drop 28 s) ! (k - 24)"
      using that l by (simp only: nth_append) simp
    finally have e: "s ! k = ('' = {'' @ drop 28 s) ! (k - 24)" .
    from that consider "k = 24" | "k = 25" | "k = 26" | "k = 27"
      by linarith
    then show ?thesis
      using e by cases (simp_all add: is_uuid_char_def)
  qed
  from sub obtain ps ss where s: "s = ps @ (u @ '' = {'') @ ss"
    by (auto simp: sublist_def)
  have lu: "length u = 24" and hu: "list_all is_uuid_char u"
    using u by (simp_all add: is_uuid_def)
  have hex: "is_uuid_char (s ! (length ps + i))" if "i < 24" for i
  proof -
    have "s ! (length ps + i) = u ! i"
      using that lu by (simp add: s nth_append)
    with hu that lu show ?thesis by (simp add: list_all_length)
  qed
  consider "length ps = 0" | "0 < length ps \<and> length ps \<le> 24"
    | "24 < length ps \<and> length ps < 28" | "28 \<le> length ps"
    by linarith
  then show ?thesis
  proof cases
    case 1
    then have "s = u @ '' = {'' @ ss" using s by simp
    then have "take 24 s = u" using lu by simp
    then show ?thesis by simp
  next
    case 2
    then have "24 - length ps < 24" by linarith
    from hex [OF this] 2 have "is_uuid_char (s ! 24)" by simp
    with nonhex [of 24] show ?thesis by simp
  next
    case 3
    from hex [of 0] have "is_uuid_char (s ! length ps)" by simp
    with nonhex [of "length ps"] 3 show ?thesis by simp
  next
    case 4
    then have "drop 28 s = drop 28 ps @ (u @ '' = {'') @ ss"
      by (simp add: s)
    then show ?thesis by (metis sublist_appendI)
  qed
qed

lemma findall_definitions_complete:
  "is_uuid u \<Longrightarrow> sublist (u @ '' = {'') s \<Longrightarrow> u \<in> set (findall_definitions s)"
proof (induction s rule: findall_definitions.induct)
  case 1
  then show ?case by simp
next
  case (2 c cs)
  show ?case
  proof (cases "definition_at (c # cs)")
    case True
    from definition_skip [OF True 2(3) 2(4)]
    have "u = take 24 (c # cs) \<or> sublist (u @ '' = {'') (drop 27 cs)" by simp
    with 2(1) [OF True 2(3)] True show ?thesis by auto
  next
    case False
    have "\<not> prefix (u @ '' = {'') (c # cs)"
    proof
      assume "prefix (u @ '' = {'') (c # cs)"
      then obtain r where "c # cs = u @ '' = {'' @ r" by (auto simp: prefix_def)
      with definition_at_append [OF 2(3), of r] False show False by simp
    qed
    with 2(4) have "sublist (u @ '' = {'') cs" by (simp add: sublist_Cons_right)
    with 2(2) [OF False 2(3)] False show ?thesis by simp
  qed
qed

lemma findall_definitions_iff:
  "u \<in> set (findall_definitions s) \<longleftrightarrow> is_uuid u \<and> sublist (u @ '' = {'') s"
  using findall_definitions_sound findall_definitions_complete by blast

section \<open>The occurrence counts\<close>

lemma validate_uuid_uniqueness_distinct:
  "validate_uuid_uniqueness content \<longleftrightarrow> distinct (findall_uuid content)"
  unfolding validate_uuid_uniqueness_def Let_def
  using card_distinct distinct_card by metis

lemma map_of_increment:
  "map_of (increment u al) k =
     (if k = u then Some ((case map_of al u of None \<Rightarrow> 0 | Some n \<Rightarrow> n) + 1) else map_of al k)"
  by (simp add: increment_def update_conv')

lemma keys_increment: "distinct (map fst al) \<Longrightarrow> distinct (map fst (increment u al))"
  by (simp add: increment_def distinct_update)

lemma map_of_fold_increment:
  "map_of (fold increment us al) k =
     (case map_of al k of
        None \<Rightarrow> if count_list us k = 0 then None else Some (count_list us k)
      | Some n \<Rightarrow> Some (n + count_list us k))"
proof (induction us arbitrary: al)
  case Nil
  show ?case by (simp split: option.splits)
next
  case (Cons u us)
  show ?case
    by (simp add: Cons.IH map_of_increment split: option.splits)
qed

lemma keys_fold_increment:
  "distinct (map fst al) \<Longrightarrow> distinct (map fst (fold increment us al))"
  by (induction us arbitrary: al) (simp_all add: keys_increment)

lemma map_of_uuid_counts:
  "map_of (uuid_counts us) k = (if count_list us k = 0 then None else Some (count_list us k))"
  by (simp add: uuid_counts_def map_of_fold_increment)

lemma keys_uuid_counts: "distinct (map fst (uuid_counts us))"
  by (simp add: uuid_counts_def keys_fold_increment)

lemma map_of_filter_value:
  "distinct (map fst al) \<Longrightarrow>
   map_of (filter (\<lambda>(k, v). P v) al) k =
     (case map_of al k of None \<Rightarrow> None | Some v \<Rightarrow> if P v then Some v else None)"
proof (induction al)
  case Nil
  show ?case by simp
next
  case (Cons p al)
  obtain a b where p: "p = (a, b)" by (cases p)
  from Cons.prems p have "a \<notin> fst ` set al" by simp
  then have "map_of al a = None" by (simp add: map_of_eq_None_iff)
  with Cons p show ?case by (auto split: option.splits)
qed

lemma keys_detect_collisions: "distinct (map fst (detect_collisions content))"
  by (simp add: detect_collisions_def keys_uuid_counts distinct_map_filter)


section \<open>The detector and the validators\<close>

text \<open>
  Claim C7. For every document, \<open>detect_collisions\<close> holds exactly the identifiers
  that the scan finds more than twice, each with its number of occurrences; the keys
  are distinct, and an identifier found once or twice is not among them.
\<close>

theorem detect_collisions_exact:
  "map_of (detect_collisions content) uuid =
     (if 2 < count_list (findall_uuid content) uuid
      then Some (count_list (findall_uuid content) uuid) else None)
   \<and> distinct (map fst (detect_collisions content))"
  by (simp add: detect_collisions_def map_of_filter_value keys_uuid_counts map_of_uuid_counts
      distinct_map_filter)

theorem detect_collisions_exact_witness:
  "map_of (detect_collisions
     ''AAAAAAAAAAAAAAAAAAAAAAAA AAAAAAAAAAAAAAAAAAAAAAAA AAAAAAAAAAAAAAAAAAAAAAAA BBBBBBBBBBBBBBBBBBBBBBBB BBBBBBBBBBBBBBBBBBBBBBBB'')
     ''AAAAAAAAAAAAAAAAAAAAAAAA'' = Some 3
   \<and> map_of (detect_collisions
     ''AAAAAAAAAAAAAAAAAAAAAAAA AAAAAAAAAAAAAAAAAAAAAAAA AAAAAAAAAAAAAAAAAAAAAAAA BBBBBBBBBBBBBBBBBBBBBBBB BBBBBBBBBBBBBBBBBBBBBBBB'')
     ''BBBBBBBBBBBBBBBBBBBBBBBB'' = None"
proof -
  let ?doc = "''AAAAAAAAAAAAAAAAAAAAAAAA AAAAAAAAAAAAAAAAAAAAAAAA AAAAAAAAAAAAAAAAAAAAAAAA BBBBBBBBBBBBBBBBBBBBBBBB BBBBBBBBBBBBBBBBBBBBBBBB''"
  have a: "count_list (findall_uuid ?doc) ''AAAAAAAAAAAAAAAAAAAAAAAA'' = 3"
    by code_simp
  have b: "count_list (findall_uuid ?doc) ''BBBBBBBBBBBBBBBBBBBBBBBB'' = 2"
    by code_simp
  from detect_collisions_exact [of ?doc "''AAAAAAAAAAAAAAAAAAAAAAAA''"]
       detect_collisions_exact [of ?doc "''BBBBBBBBBBBBBBBBBBBBBBBB''"]
  show ?thesis by (simp only: a b) simp
qed

lemma validate_object_references_iff:
  "(validate_object_references content \<longleftrightarrow>
      (\<forall>u \<in> set (findall_uuid content). sublist (u @ '' = {'') content))
   \<and> orphaned content =
      {u \<in> set (findall_uuid content). \<not> sublist (u @ '' = {'') content}"
proof -
  have "orphaned content = {u \<in> set (findall_uuid content). \<not> sublist (u @ '' = {'') content}"
    using findall_uuid_is_uuid by (auto simp: orphaned_def findall_definitions_iff)
  then show ?thesis
    by (auto simp: validate_object_references_def)
qed

text \<open>
  Claim C5. The document below is one definition, with the header that the two
  sibling scripts read and write: the identifier, its comment, then \<open> = {\<close>. No
  identifier in it lacks a definition, yet \<open>validate_object_references\<close> finds no
  definition at all, reports the defined identifier as orphaned and fails: its scan
  for definitions asks for \<open> = {\<close> right after the identifier.
\<close>

theorem validate_object_references_misses_commented_definition:
  "findall_uuid ''A1000001000000000000001A /* Core */ = {isa = PBXGroup; };''
     = [''A1000001000000000000001A'']
   \<and> findall_definitions ''A1000001000000000000001A /* Core */ = {isa = PBXGroup; };'' = []
   \<and> orphaned ''A1000001000000000000001A /* Core */ = {isa = PBXGroup; };''
     = {''A1000001000000000000001A''}
   \<and> \<not> validate_object_references
       ''A1000001000000000000001A /* Core */ = {isa = PBXGroup; };''"
  by code_simp

text \<open>
  Claim C2. The document below defines its one identifier once and refers to it
  once. \<open>validate_uuid_uniqueness\<close> rejects it: the check counts every occurrence
  of an identifier, not its definitions.
\<close>

theorem validate_uuid_uniqueness_rejects_reference:
  "findall_definitions
     ''0DD18F062E7FBB1900A893D7 = {isa = PBXFileReference; }; children = (0DD18F062E7FBB1900A893D7, );''
     = [''0DD18F062E7FBB1900A893D7'']
   \<and> findall_uuid
     ''0DD18F062E7FBB1900A893D7 = {isa = PBXFileReference; }; children = (0DD18F062E7FBB1900A893D7, );''
     = [''0DD18F062E7FBB1900A893D7'', ''0DD18F062E7FBB1900A893D7'']
   \<and> \<not> validate_uuid_uniqueness
     ''0DD18F062E7FBB1900A893D7 = {isa = PBXFileReference; }; children = (0DD18F062E7FBB1900A893D7, );''"
  by code_simp

section \<open>The run of the collision fixer\<close>

lemma count_le_1_no_collisions:
  assumes "distinct us"
  shows "filter (\<lambda>(uuid, count). count > 2) (uuid_counts us) = []"
proof -
  have "c \<le> 1" if "(u, c) \<in> set (uuid_counts us)" for u c
  proof -
    from that keys_uuid_counts [of us] have "map_of (uuid_counts us) u = Some c"
      by simp
    then have "c = count_list us u"
      by (simp add: map_of_uuid_counts split: if_splits)
    moreover from assms have "count_list us u \<le> 1"
      by (induction us) auto
    ultimately show ?thesis by simp
  qed
  then show ?thesis
    by (fastforce simp: filter_empty_conv)
qed

lemma validated_no_collisions:
  "validate_uuid_uniqueness text \<Longrightarrow> detect_collisions text = []"
  by (simp add: detect_collisions_def validate_uuid_uniqueness_distinct count_le_1_no_collisions)

lemma rollback_world:
  "rollback original w =
     (if writable w then w\<lparr>pbxproj := Some original, writes := writes w + 1\<rparr> else w)"
  by (simp add: rollback_def save_project_def)


lemma universal_newlines_id: "CHR 0x0D \<notin> set s \<Longrightarrow> universal_newlines s = s"
  by (induction s rule: universal_newlines.induct) auto

lemma load_project_plain:
  "pbxproj w = Some raw \<Longrightarrow> CHR 0x0D \<notin> set raw \<Longrightarrow> load_project w = Some raw"
  by (simp add: load_project_def universal_newlines_id)

lemma load_project_readable: "load_project w = Some original \<Longrightarrow> pbxproj w \<noteq> None"
  by (auto simp: load_project_def)

lemma fix_project_validation_failed:
  assumes "load_project w = Some original" and "detect_collisions original \<noteq> []"
    and "apply_fixes list_of rnd original = Some fixed" and "\<not> validated fixed"
  shows "\<exists>v. fix_project list_of rnd w = Some (ValidationFailed v, rollback original w)"
  using assms by (auto simp: fix_project_def validated_def)

lemma fix_project_Fixed:
  assumes "fix_project list_of rnd w = Some (Fixed, w')"
  shows "\<exists>original fixed. load_project w = Some original \<and> detect_collisions original \<noteq> [] \<and>
           apply_fixes list_of rnd original = Some fixed \<and> validated fixed \<and> writable w \<and>
           w' = w\<lparr>pbxproj := Some fixed, writes := writes w + 1\<rparr>"
  using assms
  by (auto simp: fix_project_def validated_def save_project_def
           split: option.splits if_splits)

lemma fix_project_no_collisions:
  assumes "load_project w = Some text" and "detect_collisions text = []"
  shows "fix_project list_of rnd w = Some (NoCollisions, w)"
  using assms by (simp add: fix_project_def)


section \<open>The sample runs\<close>

lemma sample_detect: "detect_collisions sample_project = [(''A1000001000000000000001A'', 3)]"
  by code_simp
lemma sample_generate:
  "generate_replacement_uuids sorted_list_of_set sample_project sample_entropy = Some sample_collision_map"
  by code_simp
lemma sample_groups: "fix_group_definitions sample_collision_map sample_project = sample_regrouped"
  by code_simp
lemma sample_parents: "fix_parent_references sample_collision_map sample_regrouped = sample_fixed"
  by code_simp
lemma sample_unique: "validate_uuid_uniqueness sample_fixed"
  by code_simp
lemma sample_references: "validate_object_references sample_fixed"
  by code_simp
lemma sample_structure: "validate_project_structure sample_fixed"
  by code_simp
lemma sample_format: "validate_xcode_format sample_fixed"
  by code_simp

lemma sample_apply_fixes:
  "apply_fixes sorted_list_of_set sample_entropy sample_project = Some sample_fixed"
  by (simp add: apply_fixes_def sample_generate sample_groups sample_parents)

lemma sample_validated: "validated sample_fixed"
  by (simp add: validated_def sample_unique sample_references sample_structure sample_format)

lemma sample_plain: "CHR 0x0D \<notin> set sample_project"
  by code_simp

lemma sample_load: "load_project sample_world = Some sample_project"
  by (rule load_project_plain) (simp_all add: sample_world_def sample_plain)

lemma sample_run:
  "fix_project sorted_list_of_set sample_entropy sample_world =
     Some (Fixed, \<lparr>pbxproj = Some sample_fixed, writable = True, writes = 1\<rparr>)"
proof -
  have "detect_collisions sample_project \<noteq> []"
    by (simp add: sample_detect)
  moreover note sample_apply_fixes sample_load
  moreover from sample_validated
  have "validate_uuid_uniqueness sample_fixed" "validate_object_references sample_fixed"
    "validate_project_structure sample_fixed" "validate_xcode_format sample_fixed"
    by (simp_all add: validated_def)
  ultimately show ?thesis
    by (simp add: fix_project_def sample_world_def save_project_def)
qed

lemma rejected_load: "load_project sample_rejected_world = Some sample_rejected_text"
  by code_simp

lemma rejected_differs: "sample_rejected_text \<noteq> sample_rejected"
  by code_simp

lemma rejected_detect: "detect_collisions sample_rejected_text \<noteq> []"
  by code_simp

lemma rejected_apply_fixes:
  "apply_fixes sorted_list_of_set sample_entropy sample_rejected_text = Some sample_rejected_fixed"
  by code_simp

lemma rejected_not_unique: "\<not> validate_uuid_uniqueness sample_rejected_fixed"
  by code_simp



lemma rejected_run:
  "fix_project sorted_list_of_set sample_entropy sample_rejected_world =
     Some (ValidationFailed Uniqueness,
       \<lparr>pbxproj = Some sample_rejected_text, writable = True, writes = 1\<rparr>)"
  using rejected_load rejected_detect rejected_apply_fixes rejected_not_unique
  by (simp add: fix_project_def rollback_world sample_rejected_world_def)


section \<open>Saving and rollback\<close>

text \<open>
  Claim C1, as the code has it. When a run of \<open>fix_project\<close> has loaded the file,
  found collisions and made the rewrite, and any of the four checks rejects the
  rewritten text, the run returns with a failed validation, and the file is left
  unwritten, if the save of the rollback fails, or holds \<open>original_content\<close>: the
  text that \<open>load_project\<close> read, which is the content before the run with every
  CR LF and every other CR turned into LF, and that content itself when it has no
  carriage return. Whatever a run that loaded the file returns, the file holds its
  content of before, that loaded text, or a rewritten text that passed the four
  checks.
\<close>

theorem failed_validation_restores_loaded_text:
  "(load_project w = Some original \<and> detect_collisions original \<noteq> [] \<and>
    apply_fixes list_of rnd original = Some fixed \<and> \<not> validated fixed \<longrightarrow>
      (\<exists>v w'. fix_project list_of rnd w = Some (ValidationFailed v, w') \<and>
         pbxproj w' = (if writable w then Some original else pbxproj w))) \<and>
   (pbxproj w = Some raw \<and> CHR 0x0D \<notin> set raw \<longrightarrow> load_project w = Some raw) \<and>
   (load_project w = Some original \<and> fix_project list_of rnd w = Some (out, w') \<longrightarrow>
      pbxproj w' = pbxproj w \<or> pbxproj w' = Some original \<or>
      (out = Fixed \<and> (\<exists>text'. pbxproj w' = Some text' \<and> validated text')))"
proof -
  have a: "\<exists>v w'. fix_project list_of rnd w = Some (ValidationFailed v, w') \<and>
         pbxproj w' = (if writable w then Some original else pbxproj w)"
    if "load_project w = Some original" "detect_collisions original \<noteq> []"
      "apply_fixes list_of rnd original = Some fixed" "\<not> validated fixed"
  proof -
    from fix_project_validation_failed [OF that]
    obtain v where "fix_project list_of rnd w = Some (ValidationFailed v, rollback original w)" ..
    moreover have "pbxproj (rollback original w) = (if writable w then Some original else pbxproj w)"
      by (simp add: rollback_world)
    ultimately show ?thesis by blast
  qed
  have b: "pbxproj w' = pbxproj w \<or> pbxproj w' = Some original \<or>
      (out = Fixed \<and> (\<exists>text'. pbxproj w' = Some text' \<and> validated text'))"
    if "load_project w = Some original" "fix_project list_of rnd w = Some (out, w')"
    using that
    by (auto simp: fix_project_def rollback_world save_project_def validated_def
        split: option.splits if_splits)
  from a b load_project_plain [of w raw] show ?thesis by blast
qed

theorem failed_validation_restores_loaded_text_witness:
  "\<exists>v w'. fix_project sorted_list_of_set sample_entropy sample_rejected_world
           = Some (ValidationFailed v, w') \<and>
          pbxproj w' = Some sample_rejected_text"
proof -
  have "\<not> validated sample_rejected_fixed"
    by (simp add: validated_def rejected_not_unique)
  moreover have "writable sample_rejected_world"
    by (simp add: sample_rejected_world_def)
  ultimately show ?thesis
    using failed_validation_restores_loaded_text [of sample_rejected_world sample_rejected_text
        sorted_list_of_set sample_entropy sample_rejected_fixed]
      rejected_load rejected_detect rejected_apply_fixes
    by auto
qed

text \<open>
  The file below has CR LF line ends. The validation of its repair fails, and the
  run leaves it with LF line ends: not with its content of before the run.
\<close>

theorem failed_validation_counterexample:
  "pbxproj sample_rejected_world = Some sample_rejected \<and>
   fix_project sorted_list_of_set sample_entropy sample_rejected_world =
     Some (ValidationFailed Uniqueness,
       \<lparr>pbxproj = Some sample_rejected_text, writable = True, writes = 1\<rparr>) \<and>
   sample_rejected_text \<noteq> sample_rejected"
  using rejected_run rejected_differs by (simp add: sample_rejected_world_def)




text \<open>
  Claim C10. \<open>validate_xcode_format\<close> rejects every text that does not start with
  \<open>// !$*UTF8*$!\<close>, whatever its braces and parentheses; and the text that a run of
  \<open>fix_project\<close> saves as fixed starts with that header.
\<close>

theorem format_requires_header:
  "(\<not> prefix file_header text \<longrightarrow> \<not> validate_xcode_format text) \<and>
   (fix_project list_of rnd w = Some (Fixed, w') \<longrightarrow>
      (\<exists>fixed. pbxproj w' = Some fixed \<and> prefix file_header fixed))"
proof -
  have "\<exists>fixed. pbxproj w' = Some fixed \<and> prefix file_header fixed"
    if "fix_project list_of rnd w = Some (Fixed, w')"
  proof -
    from fix_project_Fixed [OF that] obtain fixed
      where "validated fixed" and "w' = w\<lparr>pbxproj := Some fixed, writes := writes w + 1\<rparr>"
      by blast
    then show ?thesis
      by (auto simp: validated_def validate_xcode_format_def split: if_splits)
  qed
  then show ?thesis
    by (simp add: validate_xcode_format_def)
qed

theorem format_requires_header_witness:
  "brace_count ''{()}'' = 0 \<and> paren_count ''{()}'' = 0 \<and> \<not> validate_xcode_format ''{()}'' \<and>
   prefix file_header sample_fixed"
proof -
  have "\<not> prefix file_header ''{()}''"
    by (simp add: file_header_def)
  with format_requires_header [of "''{()}''" sorted_list_of_set sample_entropy sample_world
      "\<lparr>pbxproj = Some sample_fixed, writable = True, writes = 1\<rparr>"] sample_run
  show ?thesis by (simp add: brace_count_def paren_count_def)
qed

section \<open>Text replacement\<close>

lemma replace_absent: "\<not> sublist old s \<Longrightarrow> replace old new s = s"
proof (induction s)
  case Nil
  then show ?case by auto
next
  case (Cons c cs)
  then have "old \<noteq> []" and "\<not> prefix old (c # cs)" and "\<not> sublist old cs"
    by (auto simp: sublist_Cons_right)
  with Cons.IH show ?case by simp
qed

lemma replace_prefix_back:
  assumes P: "P \<noteq> []"
    and str: "\<And>j x. j < length Q \<Longrightarrow> \<not> prefix (drop j Q) (R @ x)"
  shows "prefix (drop j Q) (replace P R s) \<Longrightarrow> prefix (drop j Q) s"
proof (induction s arbitrary: j)
  case Nil
  with P show ?case by simp
next
  case (Cons c cs)
  show ?case
  proof (cases "j < length Q")
    case False
    then show ?thesis by simp
  next
    case True
    show ?thesis
    proof (cases "prefix P (c # cs)")
      case m: True
      with P have "replace P R (c # cs) = R @ replace P R (drop (length P - 1) cs)"
        by simp
      with Cons.prems str [OF True] show ?thesis by simp
    next
      case m: False
      with P have r: "replace P R (c # cs) = c # replace P R cs" by simp
      from True have d: "drop j Q = Q ! j # drop (Suc j) Q"
        by (simp add: Cons_nth_drop_Suc)
      from Cons.prems r d have "Q ! j = c" and "prefix (drop (Suc j) Q) (replace P R cs)"
        by simp_all
      with Cons.IH [of "Suc j"] d show ?thesis by simp
    qed
  qed
qed

lemma sublist_append_left_cases:
  "sublist Q (R @ t) \<Longrightarrow> (\<exists>k<length R. prefix Q (drop k R @ t)) \<or> sublist Q t"
proof (induction R)
  case Nil
  then show ?case by simp
next
  case (Cons r rs)
  from Cons.prems have "prefix Q (r # rs @ t) \<or> sublist Q (rs @ t)"
    by (simp add: sublist_Cons_right)
  then show ?case
  proof
    assume "prefix Q (r # rs @ t)"
    then have "prefix Q (drop 0 (r # rs) @ t)" by simp
    then show ?thesis by blast
  next
    assume "sublist Q (rs @ t)"
    from Cons.IH [OF this] show ?thesis
    proof
      assume "\<exists>k<length rs. prefix Q (drop k rs @ t)"
      then obtain k where "k < length rs" and "prefix Q (drop (Suc k) (r # rs) @ t)" by auto
      then have "Suc k < length (r # rs) \<and> prefix Q (drop (Suc k) (r # rs) @ t)" by simp
      then show ?thesis by blast
    qed simp
  qed
qed

lemma replace_no_new:
  assumes P: "P \<noteq> []"
    and str: "\<And>j x. j < length Q \<Longrightarrow> \<not> prefix (drop j Q) (R @ x)"
    and str2: "\<And>k x. k < length R \<Longrightarrow> \<not> prefix Q (drop k R @ x)"
  shows "\<not> sublist Q s \<Longrightarrow> \<not> sublist Q (replace P R s)"
proof (induction "length s" arbitrary: s rule: less_induct)
  case less
  show ?case
  proof (cases s)
    case Nil
    with less.prems P show ?thesis by simp
  next
    case (Cons c cs)
    show ?thesis
    proof (cases "prefix P (c # cs)")
      case True
      let ?rest = "drop (length P - 1) cs"
      from True P Cons have r: "replace P R s = R @ replace P R ?rest" by simp
      have "sublist ?rest s"
        unfolding Cons by (metis sublist_Cons_right sublist_drop)
      with less.prems have "\<not> sublist Q ?rest"
        using sublist_order.order_trans by blast
      moreover have "length ?rest < length s"
        using Cons by simp
      ultimately have "\<not> sublist Q (replace P R ?rest)"
        by (rule less.hyps [rotated])
      with sublist_append_left_cases [of Q R "replace P R ?rest"] str2 r
      show ?thesis by auto
    next
      case False
      with P Cons have r: "replace P R s = c # replace P R cs" by simp
      from less.prems Cons have a: "\<not> prefix Q (c # cs)" and b: "\<not> sublist Q cs"
        by (simp_all add: sublist_Cons_right)
      have "\<not> prefix Q (replace P R s)"
      proof
        assume "prefix Q (replace P R s)"
        then have "prefix (drop 0 Q) (replace P R s)" by simp
        from replace_prefix_back [OF P str this] a Cons show False by simp
      qed
      moreover have "\<not> sublist Q (replace P R cs)"
        using less.hyps [of cs] b Cons by simp
      ultimately show ?thesis
        unfolding r by (simp add: sublist_Cons_right)
    qed
  qed
qed

lemma replace_removes:
  assumes P: "P \<noteq> []"
    and str: "\<And>j x. j < length P \<Longrightarrow> \<not> prefix (drop j P) (R @ x)"
    and str2: "\<And>k x. k < length R \<Longrightarrow> \<not> prefix P (drop k R @ x)"
  shows "\<not> sublist P (replace P R s)"
proof (induction "length s" arbitrary: s rule: less_induct)
  case less
  show ?case
  proof (cases s)
    case Nil
    with P show ?thesis by simp
  next
    case (Cons c cs)
    show ?thesis
    proof (cases "prefix P (c # cs)")
      case True
      let ?rest = "drop (length P - 1) cs"
      from True P Cons have r: "replace P R s = R @ replace P R ?rest" by simp
      have "length ?rest < length s"
        using Cons by simp
      then have "\<not> sublist P (replace P R ?rest)"
        by (rule less.hyps)
      with sublist_append_left_cases [of P R "replace P R ?rest"] str2 r
      show ?thesis by auto
    next
      case False
      with P Cons have r: "replace P R s = c # replace P R cs" by simp
      have "\<not> prefix P (replace P R s)"
      proof
        assume "prefix P (replace P R s)"
        then have "prefix (drop 0 P) (replace P R s)" by simp
        from replace_prefix_back [OF P str this] False Cons show False by simp
      qed
      moreover have "\<not> sublist P (replace P R cs)"
        using less.hyps [of cs] Cons by simp
      ultimately show ?thesis
        unfolding r by (simp add: sublist_Cons_right)
    qed
  qed
qed

lemma str_by_head:
  assumes "R \<noteq> []" and "hd R \<notin> set (tl Q)" and "\<And>x. \<not> prefix Q (R @ x)"
  shows "j < length Q \<Longrightarrow> \<not> prefix (drop j Q) (R @ x)"
proof (cases j)
  case 0
  with assms(3) show ?thesis by simp
next
  case (Suc i)
  assume j: "j < length Q"
  then have d: "drop j Q = Q ! j # drop (Suc j) Q"
    by (simp add: Cons_nth_drop_Suc)
  from j Suc have "Q ! j \<in> set (tl Q)"
    by (cases Q) auto
  with assms(2) have "Q ! j \<noteq> hd R" by auto
  with assms(1) d show ?thesis
    by (cases R) auto
qed

lemma str2_by_head:
  assumes "Q \<noteq> []" and "hd Q \<notin> set (tl R)" and "\<And>x. \<not> prefix Q (R @ x)"
  shows "k < length R \<Longrightarrow> \<not> prefix Q (drop k R @ x)"
proof (cases k)
  case 0
  with assms(3) show ?thesis by simp
next
  case (Suc i)
  assume k: "k < length R"
  then have d: "drop k R = R ! k # drop (Suc k) R"
    by (simp add: Cons_nth_drop_Suc)
  from k Suc have "R ! k \<in> set (tl R)"
    by (cases R) auto
  with assms(2) have "R ! k \<noteq> hd Q" by auto
  with assms(1) d show ?thesis
    by (cases Q) auto
qed

lemma length_replace_le: "length new \<le> length old \<Longrightarrow> length (replace old new s) \<le> length s"
proof (induction "length s" arbitrary: s rule: less_induct)
  case less
  show ?case
  proof (cases s)
    case Nil
    with less.prems show ?thesis by auto
  next
    case (Cons c cs)
    show ?thesis
    proof (cases "old = []")
      case True
      with less.prems have "new = []" by simp
      with True Cons less.hyps [of cs] show ?thesis by simp
    next
      case False
      show ?thesis
      proof (cases "prefix old (c # cs)")
        case True
        then have l: "length old \<le> Suc (length cs)"
          using prefix_length_le by fastforce
        let ?rest = "drop (length old - 1) cs"
        have "length (replace old new ?rest) \<le> length ?rest"
          using less.hyps [of ?rest] less.prems Cons by simp
        with True False Cons less.prems l show ?thesis by simp
      next
        case m: False
        with False Cons less.hyps [of cs] less.prems show ?thesis by simp
      qed
    qed
  qed
qed

lemma length_replace_ge:
  "old \<noteq> [] \<Longrightarrow> length old \<le> length new \<Longrightarrow> length s \<le> length (replace old new s)"
proof (induction "length s" arbitrary: s rule: less_induct)
  case less
  show ?case
  proof (cases s)
    case Nil
    then show ?thesis by simp
  next
    case (Cons c cs)
    show ?thesis
    proof (cases "prefix old (c # cs)")
      case True
      then have l: "length old \<le> Suc (length cs)"
        using prefix_length_le by fastforce
      let ?rest = "drop (length old - 1) cs"
      have "length ?rest \<le> length (replace old new ?rest)"
        using less.hyps [of ?rest] less.prems Cons by simp
      moreover from less.prems have "0 < length old" by simp
      moreover from True less.prems Cons
      have "replace old new s = new @ replace old new ?rest" by simp
      ultimately show ?thesis
        using Cons less.prems(2) l by simp

    next
      case False
      with Cons less.hyps [of cs] less.prems show ?thesis by simp
    qed
  qed
qed

lemma replace_shorter:
  "old \<noteq> [] \<Longrightarrow> length new < length old \<Longrightarrow> sublist old s \<Longrightarrow>
   length (replace old new s) < length s"
proof (induction s)
  case Nil
  then show ?case by simp
next
  case (Cons c cs)
  show ?case
  proof (cases "prefix old (c # cs)")
    case True
    then have l: "length old \<le> Suc (length cs)"
      using prefix_length_le by fastforce
    from Cons.prems have "length new \<le> length old" by simp
    from length_replace_le [OF this, of "drop (length old - 1) cs"]
    have "length (replace old new (drop (length old - 1) cs)) \<le> length (drop (length old - 1) cs)" .
    moreover from Cons.prems have "0 < length old" by simp
    moreover from True Cons.prems
    have "replace old new (c # cs) = new @ replace old new (drop (length old - 1) cs)" by simp
    ultimately show ?thesis
      using Cons.prems(2) l by simp
  next
    case False
    with Cons show ?thesis by (simp add: sublist_Cons_right)
  qed
qed

lemma replace_longer:
  "old \<noteq> [] \<Longrightarrow> length old < length new \<Longrightarrow> sublist old s \<Longrightarrow>
   length s < length (replace old new s)"
proof (induction s)
  case Nil
  then show ?case by simp
next
  case (Cons c cs)
  show ?case
  proof (cases "prefix old (c # cs)")
    case True
    then have l: "length old \<le> Suc (length cs)"
      using prefix_length_le by fastforce
    from Cons.prems have "length old \<le> length new" by simp
    from length_replace_ge [OF Cons.prems(1) this, of "drop (length old - 1) cs"]
    have "length (drop (length old - 1) cs) \<le> length (replace old new (drop (length old - 1) cs))" .
    moreover from Cons.prems have "0 < length old" by simp
    moreover from True Cons.prems
    have "replace old new (c # cs) = new @ replace old new (drop (length old - 1) cs)" by simp
    ultimately show ?thesis
      using Cons.prems(2) l by simp
  next
    case False
    with Cons show ?thesis by (simp add: sublist_Cons_right)
  qed
qed

lemma replace_keeps:
  "old \<noteq> [] \<Longrightarrow> sublist old new \<Longrightarrow> sublist old s \<Longrightarrow> sublist old (replace old new s)"
proof (induction s)
  case Nil
  then show ?case by simp
next
  case (Cons c cs)
  show ?case
  proof (cases "prefix old (c # cs)")
    case True
    have "sublist new (new @ replace old new (drop (length old - 1) cs))" by simp
    with Cons.prems(2) have "sublist old (new @ replace old new (drop (length old - 1) cs))"
      using sublist_order.order_trans by blast
    with True Cons.prems(1) show ?thesis by simp
  next
    case False
    with Cons show ?thesis by (simp add: sublist_Cons_right)
  qed
qed

section \<open>The edit steps of fix_infoplist_conflict.py\<close>

lemma disable_auto_generation_clears:
  "\<not> sublist ''GENERATE_INFOPLIST_FILE = YES;'' (disable_auto_generation text)"
proof -
  let ?P = "''GENERATE_INFOPLIST_FILE = YES;''" and ?R = "''GENERATE_INFOPLIST_FILE = NO;''"
  have d: "\<not> prefix ?P (?R @ x)" for x by simp
  have "\<not> prefix (drop j ?P) (?R @ x)" if "j < length ?P" for j x
    using that by (rule str_by_head [rotated -1]) (simp_all add: d)
  moreover have "\<not> prefix ?P (drop k ?R @ x)" if "k < length ?R" for k x
    using that by (rule str2_by_head [rotated -1]) (simp_all add: d)
  ultimately show ?thesis
    unfolding disable_auto_generation_def by (intro replace_removes) simp_all
qed

text \<open>
  Claim C9, as the code has it. Each of the four edit steps of
  \<open>fix_infoplist_conflict\<close> leaves a text without its target as it is. The change of
  \<open>GENERATE_INFOPLIST_FILE\<close> from \<open>YES\<close> to \<open>NO\<close> gives the same text when applied
  twice as when applied once. A removal step does so exactly when its first
  application leaves no occurrence of the line behind, and the step that adds
  \<open>INFOPLIST_FILE\<close> exactly on the texts without \<open>GENERATE_INFOPLIST_FILE = NO;\<close>.
\<close>

theorem infoplist_steps:
  "(\<not> sublist infoplist_buildfile_line text \<longrightarrow> remove_buildfile_entry text = text) \<and>
   (\<not> sublist infoplist_resource_line text \<longrightarrow> remove_resource_entry text = text) \<and>
   (\<not> sublist ''GENERATE_INFOPLIST_FILE = YES;'' text \<longrightarrow> disable_auto_generation text = text) \<and>
   (\<not> sublist ''GENERATE_INFOPLIST_FILE = NO;'' text \<longrightarrow> add_infoplist_setting text = text) \<and>
   disable_auto_generation (disable_auto_generation text) = disable_auto_generation text \<and>
   (remove_buildfile_entry (remove_buildfile_entry text) = remove_buildfile_entry text \<longleftrightarrow>
      \<not> sublist infoplist_buildfile_line (remove_buildfile_entry text)) \<and>
   (remove_resource_entry (remove_resource_entry text) = remove_resource_entry text \<longleftrightarrow>
      \<not> sublist infoplist_resource_line (remove_resource_entry text)) \<and>
   (add_infoplist_setting (add_infoplist_setting text) = add_infoplist_setting text \<longleftrightarrow>
      \<not> sublist ''GENERATE_INFOPLIST_FILE = NO;'' text)"
proof -
  have n1: "\<not> sublist infoplist_buildfile_line t \<Longrightarrow> remove_buildfile_entry t = t" for t
    by (simp add: remove_buildfile_entry_def)
  have n2: "\<not> sublist infoplist_resource_line t \<Longrightarrow> remove_resource_entry t = t" for t
    by (simp add: remove_resource_entry_def)
  have n3: "\<not> sublist ''GENERATE_INFOPLIST_FILE = YES;'' t \<Longrightarrow> disable_auto_generation t = t" for t
    by (simp add: disable_auto_generation_def replace_absent)
  have n4: "\<not> sublist ''GENERATE_INFOPLIST_FILE = NO;'' t \<Longrightarrow> add_infoplist_setting t = t" for t
    by (simp add: add_infoplist_setting_def replace_absent)
  have n5: "disable_auto_generation (disable_auto_generation text) = disable_auto_generation text"
    by (rule n3) (rule disable_auto_generation_clears)
  have n6: "remove_buildfile_entry t \<noteq> t" if "sublist infoplist_buildfile_line t" for t
  proof -
    have "length (replace infoplist_buildfile_line [] t) < length t"
      using that by (intro replace_shorter) (simp_all add: infoplist_buildfile_line_def)
    with that show ?thesis by (auto simp: remove_buildfile_entry_def)
  qed
  have n7: "remove_resource_entry t \<noteq> t" if "sublist infoplist_resource_line t" for t
  proof -
    have "length (replace infoplist_resource_line [] t) < length t"
      using that by (intro replace_shorter) (simp_all add: infoplist_resource_line_def)
    with that show ?thesis by (auto simp: remove_resource_entry_def)
  qed
  let ?P = "''GENERATE_INFOPLIST_FILE = NO;''"
  let ?R = "?P @ [CHR 0x0A, CHR 0x09, CHR 0x09, CHR 0x09, CHR 0x09] @ infoplist_setting"
  have n8: "add_infoplist_setting t \<noteq> t" if "sublist ?P t" for t
  proof -
    have "length t < length (replace ?P ?R t)"
      using that by (intro replace_longer) simp_all
    then show ?thesis by (auto simp: add_infoplist_setting_def)
  qed
  have n9: "sublist ?P (add_infoplist_setting t)" if "sublist ?P t" for t
    unfolding add_infoplist_setting_def using that
    by (intro replace_keeps) (simp_all del: append.simps)
  from n1 n2 n3 n4 n5 n6 [of "remove_buildfile_entry text"] n7 [of "remove_resource_entry text"]
    n8 [of "add_infoplist_setting text"] n9 [of "text"]
  show ?thesis by metis
qed

theorem infoplist_steps_witness:
  "remove_buildfile_entry ''isa = PBXProject;'' = ''isa = PBXProject;'' \<and>
   remove_resource_entry ''isa = PBXProject;'' = ''isa = PBXProject;'' \<and>
   disable_auto_generation ''isa = PBXProject;'' = ''isa = PBXProject;'' \<and>
   add_infoplist_setting ''isa = PBXProject;'' = ''isa = PBXProject;''"
proof -
  have "\<not> sublist infoplist_buildfile_line ''isa = PBXProject;''"
    "\<not> sublist infoplist_resource_line ''isa = PBXProject;''"
    "\<not> sublist ''GENERATE_INFOPLIST_FILE = YES;'' ''isa = PBXProject;''"
    "\<not> sublist ''GENERATE_INFOPLIST_FILE = NO;'' ''isa = PBXProject;''"
    by code_simp+
  with infoplist_steps [of "''isa = PBXProject;''"] show ?thesis by blast
qed

text \<open>
  Two texts on which a second application changes the result of the first: the
  added setting is added again, and the removal of the resource line joins the two
  halves of another occurrence of it.
\<close>

theorem infoplist_steps_counterexample:
  "add_infoplist_setting (add_infoplist_setting ''GENERATE_INFOPLIST_FILE = NO;'') \<noteq>
     add_infoplist_setting ''GENERATE_INFOPLIST_FILE = NO;'' \<and>
   remove_resource_entry (remove_resource_entry
     ''00DD18F0E2E7FBB1900A893D7 /* Info.plist in Resources */,DD18F0E2E7FBB1900A893D7 /* Info.plist in Resources */,'') \<noteq>
   remove_resource_entry
     ''00DD18F0E2E7FBB1900A893D7 /* Info.plist in Resources */,DD18F0E2E7FBB1900A893D7 /* Info.plist in Resources */,''"
  by code_simp

section \<open>The identifier generator\<close>

lemma upper_hexdigits: "list_all (\<lambda>c. is_uuid_char (upper_char c)) hexdigits"
  by code_simp

lemma upper_hexdigit: "n < 16 \<Longrightarrow> is_uuid_char (upper_char (hexdigits ! n))"
  using upper_hexdigits by (simp add: list_all_length hexdigits_def)

lemma upper_hex_chars: "list_all is_uuid_char (upper (hex bs))"
proof (induction bs)
  case Nil
  show ?case by (simp add: hex_def upper_def)
next
  case (Cons b bs)
  have "unat b < 256" using unsigned_less [of b] by simp
  then have "unat b div 16 < 16" by simp
  moreover have "unat b mod 16 < 16" by simp
  ultimately show ?case
    using Cons by (simp add: hex_def upper_def upper_hexdigit)
qed

lemma length_upper_hex: "length (upper (hex bs)) = 2 * length bs"
  by (induction bs) (simp_all add: hex_def upper_def)

lemma generate_xcode_uuid_is_uuid:
  "generate_xcode_uuid rnd = Some (uuid, rnd') \<Longrightarrow> is_uuid uuid"
  by (auto simp: generate_xcode_uuid_def token_bytes_def is_uuid_def upper_hex_chars
      length_upper_hex split: if_splits)

lemma loop_done:
  "\<not> int (card uuids) < count \<Longrightarrow>
   generate_unique_uuid_loop count existing uuids rnd = Some uuids"
  by (subst generate_unique_uuid_loop.simps) simp

lemma loop_exhausted:
  "int (card uuids) < count \<Longrightarrow> generate_xcode_uuid rnd = None \<Longrightarrow>
   generate_unique_uuid_loop count existing uuids rnd = None"
  by (subst generate_unique_uuid_loop.simps) simp

lemma loop_fresh:
  "int (card uuids) < count \<Longrightarrow> generate_xcode_uuid rnd = Some (uuid, rnd') \<Longrightarrow>
   uuid \<notin> existing \<Longrightarrow> uuid \<notin> uuids \<Longrightarrow>
   generate_unique_uuid_loop count existing uuids rnd =
   generate_unique_uuid_loop count existing (insert uuid uuids) rnd'"
  by (subst generate_unique_uuid_loop.simps) simp

lemma loop_stale:
  "int (card uuids) < count \<Longrightarrow> generate_xcode_uuid rnd = Some (uuid, rnd') \<Longrightarrow>
   uuid \<in> existing \<or> uuid \<in> uuids \<Longrightarrow>
   generate_unique_uuid_loop count existing uuids rnd =
   generate_unique_uuid_loop count existing uuids rnd'"
  by (subst generate_unique_uuid_loop.simps) auto

lemma loop_result:
  assumes "generate_unique_uuid_loop count existing uuids rnd = Some S"
    and "finite uuids" and "int (card uuids) \<le> count"
    and "uuids \<inter> existing = {}" and "\<forall>u\<in>uuids. is_uuid u"
  shows "finite S \<and> int (card S) = count \<and> S \<inter> existing = {} \<and> (\<forall>u\<in>S. is_uuid u)"
  using assms
proof (induction count existing uuids rnd rule: generate_unique_uuid_loop.induct)
  case (1 count existing uuids rnd)
  note res = "1.prems"(1) and fin = "1.prems"(2) and le = "1.prems"(3)
    and dis = "1.prems"(4) and shape = "1.prems"(5)
  show ?case
  proof (cases "int (card uuids) < count")
    case False
    from res loop_done [OF False, of existing rnd] have "S = uuids" by simp
    moreover from False le have "int (card uuids) = count" by simp
    ultimately show ?thesis using fin dis shape by simp
  next
    case True
    show ?thesis
    proof (cases "generate_xcode_uuid rnd")
      case None
      from res loop_exhausted [OF True None, of existing] show ?thesis by simp
    next
      case (Some p)
      obtain uuid rnd' where p: "p = (uuid, rnd')" by (cases p)
      from Some p have g: "generate_xcode_uuid rnd = Some (uuid, rnd')" by simp
      show ?thesis
      proof (cases "uuid \<notin> existing \<and> uuid \<notin> uuids")
        case fresh: True
        then have f1: "uuid \<notin> existing" and f2: "uuid \<notin> uuids" by simp_all
        from res loop_fresh [OF True g f1 f2]
        have r: "generate_unique_uuid_loop count existing (insert uuid uuids) rnd' = Some S"
          by simp
        have a: "finite (insert uuid uuids)" using fin by simp
        have "card (insert uuid uuids) = Suc (card uuids)"
          using fin f2 by simp
        with True have b: "int (card (insert uuid uuids)) \<le> count" by simp
        have c: "insert uuid uuids \<inter> existing = {}"
          using f1 dis by simp
        have d: "\<forall>u\<in>insert uuid uuids. is_uuid u"
          using generate_xcode_uuid_is_uuid [OF g] shape by simp
        show ?thesis
          by (rule "1.IH"(1) [OF True Some p [symmetric] fresh r a b c d])
      next
        case stale: False
        then have s: "uuid \<in> existing \<or> uuid \<in> uuids" by simp
        from res loop_stale [OF True g s]
        have r: "generate_unique_uuid_loop count existing uuids rnd' = Some S"
          by simp
        show ?thesis
          by (rule "1.IH"(2) [OF True Some p [symmetric] stale r fin le dis shape])
      qed
    qed
  qed
qed

lemma loop_returns:
  assumes "finite uuids"
  shows "generate_unique_uuid_loop count existing uuids rnd \<noteq> None \<longleftrightarrow>
         count \<le> int (card (uuids \<union> (set (draws rnd) - existing)))"
  using assms
proof (induction count existing uuids rnd rule: generate_unique_uuid_loop.induct)
  case (1 count existing uuids rnd)
  have fin: "finite (uuids \<union> (set (draws rnd) - existing))"
    using "1.prems" by simp
  show ?case
  proof (cases "int (card uuids) < count")
    case False
    have "card uuids \<le> card (uuids \<union> (set (draws rnd) - existing))"
      using fin by (intro card_mono) simp_all
    with False show ?thesis
      by (simp add: generate_unique_uuid_loop.simps [of count existing uuids rnd])
  next
    case True
    show ?thesis
    proof (cases "generate_xcode_uuid rnd")
      case None
      then have "draws rnd = []"
        by (simp add: draws.simps [of rnd])
      with True None show ?thesis
        by (simp add: generate_unique_uuid_loop.simps [of count existing uuids rnd])
    next
      case (Some p)
      obtain uuid rnd' where p: "p = (uuid, rnd')" by (cases p)
      with Some have d: "draws rnd = uuid # draws rnd'"
        by (simp add: draws.simps [of rnd])
      show ?thesis
      proof (cases "uuid \<notin> existing \<and> uuid \<notin> uuids")
        case fresh: True
        have "uuids \<union> (set (draws rnd) - existing) =
              insert uuid uuids \<union> (set (draws rnd') - existing)"
          using fresh d by auto
        with "1.IH"(1) [OF True Some p [symmetric] fresh] "1.prems" True Some p fresh
        show ?thesis
          by (simp add: generate_unique_uuid_loop.simps [of count existing uuids rnd])
      next
        case stale: False
        have "uuids \<union> (set (draws rnd) - existing) = uuids \<union> (set (draws rnd') - existing)"
          using stale d by auto
        with "1.IH"(2) [OF True Some p [symmetric] stale] "1.prems" True Some p stale
        show ?thesis
          by (auto simp: generate_unique_uuid_loop.simps [of count existing uuids rnd])
      qed
    qed
  qed
qed

lemma draws_are_uuids: "u \<in> set (draws rnd) \<Longrightarrow> is_uuid u"
proof (induction rnd rule: draws.induct)
  case (1 rnd)
  show ?case
  proof (cases "generate_xcode_uuid rnd")
    case None
    with 1 show ?thesis by (simp add: draws.simps [of rnd])
  next
    case (Some p)
    obtain uuid rnd' where p: "p = (uuid, rnd')" by (cases p)
    with Some "1.prems" have "u = uuid \<or> u \<in> set (draws rnd')"
      by (simp add: draws.simps [of rnd])
    with "1.IH" [OF Some p [symmetric]] generate_xcode_uuid_is_uuid Some p show ?thesis
      by blast
  qed
qed

lemma uuid_chars: "{c. is_uuid_char c} = set ''ABCDEF0123456789''"
  unfolding is_uuid_char_def by (rule Collect_mem_eq)

lemma card_uuid_chars: "card {c. is_uuid_char c} = 16"
proof -
  have "distinct ''ABCDEF0123456789''" by code_simp
  from distinct_card [OF this] show ?thesis
    unfolding uuid_chars by simp
qed

lemma uuids_eq: "{u. is_uuid u} = {u. set u \<subseteq> {c. is_uuid_char c} \<and> length u = 24}"
  by (auto simp: is_uuid_def list_all_iff)

lemma uuids_finite: "finite {u. is_uuid u}"
proof -
  have "finite {c. is_uuid_char c}"
    unfolding uuid_chars by (rule finite_set)
  then show ?thesis
    unfolding uuids_eq by (rule finite_lists_length_eq)
qed

lemma uuids_card: "card {u. is_uuid u} = 16 ^ 24"
proof -
  have "finite {c. is_uuid_char c}"
    unfolding uuid_chars by (rule finite_set)
  from card_lists_length_eq [OF this, of 24] show ?thesis
    unfolding uuids_eq card_uuid_chars .
qed

text \<open>
  Claim C8, as the code has it. \<open>generate_unique_uuid_set\<close> has no bound on its
  loop: for a count that is not negative it returns exactly when the random source
  yields at least that many different identifiers outside \<open>existing_uuids\<close>, and it
  then returns a set of exactly \<open>count\<close> identifiers, each of 24 characters out of
  \<open>0-9A-F\<close> and none of them in \<open>existing_uuids\<close>.
\<close>

theorem generate_unique_uuid_set_contract:
  assumes "0 \<le> count"
  shows "(generate_unique_uuid_set count existing rnd \<noteq> None \<longleftrightarrow>
            count \<le> int (card (set (draws rnd) - existing))) \<and>
         (\<forall>S. generate_unique_uuid_set count existing rnd = Some S \<longrightarrow>
            finite S \<and> int (card S) = count \<and> S \<inter> existing = {} \<and> (\<forall>u\<in>S. is_uuid u))"
proof -
  have "generate_unique_uuid_set count existing rnd \<noteq> None \<longleftrightarrow>
          count \<le> int (card (set (draws rnd) - existing))"
    using loop_returns [of "{}" count existing rnd]
    by (simp add: generate_unique_uuid_set_def)
  moreover have "finite S \<and> int (card S) = count \<and> S \<inter> existing = {} \<and> (\<forall>u\<in>S. is_uuid u)"
    if "generate_unique_uuid_set count existing rnd = Some S" for S
    using that assms loop_result [of count existing "{}" rnd S]
    by (simp add: generate_unique_uuid_set_def)
  ultimately show ?thesis by blast
qed

theorem generate_unique_uuid_set_contract_witness:
  "\<exists>S. generate_unique_uuid_set 2 {''A1000001000000000000008A''} (take 36 sample_entropy) = Some S \<and>
       int (card S) = 2 \<and> S \<inter> {''A1000001000000000000008A''} = {} \<and> (\<forall>u\<in>S. is_uuid u)"
proof -
  have d: "draws (take 36 sample_entropy) =
     [''A1000001000000000000008A'', ''B00000000000000000000001'', ''B00000000000000000000002'']"
    by code_simp
  have "(2::int) \<le> int (card (set (draws (take 36 sample_entropy)) - {''A1000001000000000000008A''}))"
    unfolding d by code_simp
  with generate_unique_uuid_set_contract [of 2 "{''A1000001000000000000008A''}" "take 36 sample_entropy"]
  show ?thesis by auto
qed

text \<open>
  There are \<open>16 ^ 24\<close> identifiers, so no random source makes the call for
  \<open>16 ^ 24 + 1\<close> of them return.
\<close>

theorem generate_unique_uuid_set_counterexample:
  "\<forall>rnd. generate_unique_uuid_set (16 ^ 24 + 1) {} rnd = None"
proof (rule allI, rule ccontr)
  fix rnd
  assume "generate_unique_uuid_set (16 ^ 24 + 1) {} rnd \<noteq> None"
  then obtain S where "generate_unique_uuid_set (16 ^ 24 + 1) {} rnd = Some S" by auto
  from loop_result [of "16 ^ 24 + 1" "{}" "{}" rnd S] this
  have c: "int (card S) = 16 ^ 24 + 1" and u: "\<forall>u\<in>S. is_uuid u"
    by (simp_all add: generate_unique_uuid_set_def)
  from u have "S \<subseteq> {u. is_uuid u}" by blast
  then have "card S \<le> card {u. is_uuid u}"
    using uuids_finite by (rule card_mono [rotated])
  then have "int (card S) \<le> 16 ^ 24"
    unfolding uuids_card by (metis of_nat_le_iff of_nat_numeral of_nat_power)
  with c show False by simp
qed

section \<open>The replacement mappings\<close>

lemma set_order_sorted: "set_order sorted_list_of_set"
  by (simp add: set_order_def)

lemma length_known_collisions: "length known_collisions = 10"
  by (simp add: known_collisions_def)

lemma generate_replacement_uuids_result:
  assumes g: "generate_replacement_uuids list_of text rnd = Some collision_map"
    and ord: "set_order list_of"
  shows "map fst collision_map = map fst known_collisions"
    and "distinct (map (new_group_uuid \<circ> snd) collision_map)"
    and "set (map (new_group_uuid \<circ> snd) collision_map) \<inter> set (findall_uuid text) = {}"
    and "\<forall>u \<in> set (map (new_group_uuid \<circ> snd) collision_map). is_uuid u"
proof -
  let ?f = "\<lambda>((old, name, file), new).
              (old, \<lparr>old_uuid = old, new_group_uuid = new, group_name = name, associated_file = file\<rparr>)"
  from g obtain S where S: "generate_unique_uuid_set 10 (set (findall_uuid text)) rnd = Some S"
    and cm: "collision_map = map ?f (zip known_collisions (list_of S))"
    by (auto simp: generate_replacement_uuids_def Let_def length_known_collisions
        split: option.splits)
  from loop_result [of 10 "set (findall_uuid text)" "{}" rnd S] S
  have fin: "finite S" and card: "card S = 10" and dis: "S \<inter> set (findall_uuid text) = {}"
    and shape: "\<forall>u\<in>S. is_uuid u"
    by (simp_all add: generate_unique_uuid_set_def)
  from ord fin have l: "set (list_of S) = S" "distinct (list_of S)"
    by (simp_all add: set_order_def)
  then have len: "length (list_of S) = length known_collisions"
    using card distinct_card [of "list_of S"] by (simp add: length_known_collisions)
  have "map fst collision_map = map fst (map fst (zip known_collisions (list_of S)))"
    unfolding cm by (simp add: case_prod_beta comp_def)
  also have "\<dots> = map fst known_collisions"
    using len by simp
  finally show "map fst collision_map = map fst known_collisions" .
  have "map (new_group_uuid \<circ> snd) collision_map = map snd (zip known_collisions (list_of S))"
    unfolding cm by (simp add: case_prod_beta comp_def)
  also have "\<dots> = list_of S"
    using len by simp
  finally have news: "map (new_group_uuid \<circ> snd) collision_map = list_of S" .
  show "distinct (map (new_group_uuid \<circ> snd) collision_map)"
    unfolding news by (rule l(2))
  show "set (map (new_group_uuid \<circ> snd) collision_map) \<inter> set (findall_uuid text) = {}"
    unfolding news l(1) by (rule dis)
  show "\<forall>u \<in> set (map (new_group_uuid \<circ> snd) collision_map). is_uuid u"
    unfolding news l(1) by (rule shape)
qed

lemma mint_result:
  "mint existing rnd = Some (new_uuid, rnd') \<Longrightarrow> new_uuid \<notin> existing \<and> is_uuid new_uuid"
proof (induction existing rnd rule: mint.induct)
  case (1 existing rnd)
  from "1.prems" obtain u r where g: "generate_xcode_uuid rnd = Some (u, r)"
    by (subst (asm) mint.simps) (auto split: option.splits)
  show ?case
  proof (cases "u \<notin> existing")
    case True
    with g "1.prems" have "new_uuid = u"
      by (subst (asm) mint.simps) simp
    with True generate_xcode_uuid_is_uuid [OF g] show ?thesis by simp
  next
    case False
    with g "1.prems" have "mint existing r = Some (new_uuid, rnd')"
      by (subst (asm) mint.simps) simp
    from "1.IH" [OF g refl False this] show ?thesis .
  qed
qed

lemma precise_replacement_loop_result:
  "precise_replacement_loop table existing rnd = Some replacement_map \<Longrightarrow>
   map fst replacement_map = map fst table \<and> distinct (map snd replacement_map) \<and>
   set (map snd replacement_map) \<inter> existing = {} \<and>
   (\<forall>u \<in> set (map snd replacement_map). is_uuid u)"
proof (induction table arbitrary: existing rnd replacement_map)
  case Nil
  then show ?case by simp
next
  case (Cons entry table)
  obtain old info where e: "entry = (old, info)" by (cases entry)
  from Cons.prems e obtain new_uuid rnd' rest
    where m: "mint existing rnd = Some (new_uuid, rnd')"
      and r: "precise_replacement_loop table (insert new_uuid existing) rnd' = Some rest"
      and rm: "replacement_map = (old, new_uuid) # rest"
    by (auto split: option.splits)
  from Cons.IH [OF r] mint_result [OF m] show ?case
    unfolding rm e by auto
qed

lemma sample_precise_generate:
  "precise_generate_replacement_uuids sample_unrepairable sample_entropy = Some sample_precise_map"
  by code_simp

text \<open>
  Claim C6, as the code has it. A replacement mapping that either fixer generates
  gives every identifier of its table a new identifier; the new identifiers are
  pairwise different, each has the shape of an identifier, and none of them is among
  the identifiers that the scan finds in the document at that time. The identifiers
  of the table are not looked at: one of them that the document does not hold can
  come back as a new identifier.
\<close>

theorem replacement_mapping_injective:
  "(generate_replacement_uuids list_of text rnd = Some collision_map \<and> set_order list_of \<longrightarrow>
      map fst collision_map = map fst known_collisions \<and>
      distinct (map (new_group_uuid \<circ> snd) collision_map) \<and>
      set (map (new_group_uuid \<circ> snd) collision_map) \<inter> set (findall_uuid text) = {} \<and>
      (\<forall>u \<in> set (map (new_group_uuid \<circ> snd) collision_map). is_uuid u)) \<and>
   (precise_generate_replacement_uuids text rnd = Some replacement_map \<longrightarrow>
      map fst replacement_map = map fst collision_fixes \<and>
      distinct (map snd replacement_map) \<and>
      set (map snd replacement_map) \<inter> set (findall_uuid text) = {} \<and>
      (\<forall>u \<in> set (map snd replacement_map). is_uuid u))"
  using generate_replacement_uuids_result [of list_of "text" rnd collision_map]
    precise_replacement_loop_result [of collision_fixes "set (findall_uuid text)" rnd replacement_map]
  by (simp add: precise_generate_replacement_uuids_def)

theorem replacement_mapping_injective_witness:
  "distinct (map (new_group_uuid \<circ> snd) sample_collision_map) \<and>
   set (map (new_group_uuid \<circ> snd) sample_collision_map) \<inter> set (findall_uuid sample_project) = {} \<and>
   distinct (map snd sample_precise_map) \<and>
   set (map snd sample_precise_map) \<inter> set (findall_uuid sample_unrepairable) = {}"
  using replacement_mapping_injective [of sorted_list_of_set sample_project sample_entropy
      sample_collision_map sample_precise_map]
    replacement_mapping_injective [of sorted_list_of_set sample_unrepairable sample_entropy
      sample_collision_map sample_precise_map]
    sample_generate sample_precise_generate set_order_sorted
  by simp

text \<open>
  The sample project does not hold the second key of \<open>known_collisions\<close>, and the
  mapping generated for it gives that key to the first one as its new identifier.
\<close>

theorem replacement_mapping_counterexample:
  "generate_replacement_uuids sorted_list_of_set sample_project sample_entropy =
     Some sample_collision_map \<and>
   ''A1000001000000000000008A'' \<in> set (map (new_group_uuid \<circ> snd) sample_collision_map) \<and>
   ''A1000001000000000000008A'' \<in> set (map fst sample_collision_map)"
proof -
  have "''A1000001000000000000008A'' \<in> set (map (new_group_uuid \<circ> snd) sample_collision_map)"
    by code_simp
  moreover have "''A1000001000000000000008A'' \<in> set (map fst sample_collision_map)"
    by code_simp
  ultimately show ?thesis
    using sample_generate by simp
qed

section \<open>Line ends and the scan\<close>

lemma universal_newlines_Cons:
  "c \<noteq> CHR 0x0D \<Longrightarrow> universal_newlines (c # s) = c # universal_newlines s"
  by (cases s) simp_all

lemma universal_newlines_CR:
  "universal_newlines (CHR 0x0D # s) =
     CHR 0x0A # universal_newlines (case s of [] \<Rightarrow> [] | d # ds \<Rightarrow> if d = CHR 0x0A then ds else s)"
  by (cases s) simp_all

lemma not_uuid_char_newlines: "\<not> is_uuid_char (CHR 0x0D)" "\<not> is_uuid_char (CHR 0x0A)"
  by (simp_all add: is_uuid_char_def)

lemma hex_run_universal_newlines: "hex_run n (universal_newlines s) = hex_run n s"
proof (induction s arbitrary: n)
  case Nil
  show ?case by simp
next
  case (Cons c cs)
  show ?case
  proof (cases "c = CHR 0x0D")
    case True
    then show ?thesis
      by (simp add: universal_newlines_CR hex_run.simps [of n "_ # _"] not_uuid_char_newlines)
  next
    case False
    with Cons [of "n - 1"] show ?thesis
      by (simp add: universal_newlines_Cons hex_run.simps [of n "_ # _"])
  qed
qed

lemma uuid_at_universal_newlines: "uuid_at (universal_newlines s) = uuid_at s"
  by (simp add: uuid_at_code hex_run_universal_newlines)

lemma universal_newlines_hex_append:
  "list_all is_uuid_char a \<Longrightarrow> universal_newlines (a @ b) = a @ universal_newlines b"
proof (induction a)
  case Nil
  show ?case by simp
next
  case (Cons c a)
  then have "c \<noteq> CHR 0x0D"
    using not_uuid_char_newlines(1) by auto
  with Cons show ?case
    by (simp add: universal_newlines_Cons)
qed

lemma findall_uuid_at: "uuid_at t \<Longrightarrow> findall_uuid t = take 24 t # findall_uuid (drop 24 t)"
  by (cases t) (simp_all add: uuid_at_def)

lemma findall_uuid_not_at: "\<not> uuid_at t \<Longrightarrow> findall_uuid t = findall_uuid (tl t)"
  by (cases t) simp_all

lemma not_uuid_at_newline: "\<not> uuid_at (CHR 0x0A # s)" "\<not> uuid_at (CHR 0x0D # s)"
  by (simp_all add: uuid_at_def is_uuid_char_def)

lemma findall_uuid_universal_newlines: "findall_uuid (universal_newlines s) = findall_uuid s"
proof (induction "length s" arbitrary: s rule: less_induct)
  case less
  show ?case
  proof (cases "uuid_at s")
    case True
    then have h: "list_all is_uuid_char (take 24 s)" and l: "length (take 24 s) = 24"
      by (simp_all add: uuid_at_def)
    have "universal_newlines s = universal_newlines (take 24 s @ drop 24 s)" by simp
    also have "\<dots> = take 24 s @ universal_newlines (drop 24 s)"
      using h by (rule universal_newlines_hex_append)
    finally have e: "universal_newlines s = take 24 s @ universal_newlines (drop 24 s)" .
    have t: "take 24 (universal_newlines s) = take 24 s"
      unfolding e using l by simp
    have d: "drop 24 (universal_newlines s) = universal_newlines (drop 24 s)"
      unfolding e using l by simp
    from True have "24 \<le> length s"
      by (simp add: uuid_at_def)
    then have "length (drop 24 s) < length s"
      by simp
    from less [OF this] True show ?thesis
      by (simp add: findall_uuid_at uuid_at_universal_newlines t d)
  next
    case False
    show ?thesis
    proof (cases s)
      case Nil
      then show ?thesis by simp
    next
      case (Cons c cs)
      show ?thesis
      proof (cases "c = CHR 0x0D")
        case c: False
        from less [of cs] Cons have "findall_uuid (universal_newlines cs) = findall_uuid cs"
          by simp
        with False c Cons show ?thesis
          using uuid_at_universal_newlines [of s]
          by (simp add: findall_uuid_not_at universal_newlines_Cons)
      next
        case c: True
        show ?thesis
        proof (cases "\<exists>ds. cs = CHR 0x0A # ds")
          case True
          then obtain ds where ds: "cs = CHR 0x0A # ds" ..
          from less [of ds] Cons ds have "findall_uuid (universal_newlines ds) = findall_uuid ds"
            by simp
          with c Cons ds show ?thesis
            by (simp add: not_uuid_at_newline)
        next
          case nl: False
          from less [of cs] Cons have "findall_uuid (universal_newlines cs) = findall_uuid cs"
            by simp
          moreover from nl have "universal_newlines (CHR 0x0D # cs) = CHR 0x0A # universal_newlines cs"
            by (cases cs) auto
          ultimately show ?thesis
            using c Cons by (simp add: not_uuid_at_newline)
        qed
      qed
    qed
  qed
qed

lemma detect_collisions_universal_newlines:
  "detect_collisions (universal_newlines s) = detect_collisions s"
  by (simp add: detect_collisions_def findall_uuid_universal_newlines)

section \<open>Patterns that do not overlap\<close>

lemma no_adjacent_hex_drop: "no_adjacent_hex t \<Longrightarrow> no_adjacent_hex (drop n t)"
proof (induction n arbitrary: t)
  case 0
  then show ?case by simp
next
  case (Suc n)
  show ?case
  proof (cases t)
    case Nil
    then show ?thesis by simp
  next
    case (Cons a as)
    with Suc.prems have "no_adjacent_hex as" by (cases as) simp_all
    with Suc.IH Cons show ?thesis by simp
  qed
qed

text \<open>A nonempty end piece of a tag does not start an identifier's first two characters.\<close>

lemma tag_suffix_no_uuid_start:
  assumes t: "tag t" and n: "n < length t" and u: "is_uuid u"
  shows "\<not> prefix (drop n t) (u @ x)" and "\<not> prefix (u @ y) (drop n t @ x)"
proof -
  from u obtain a b r where ue: "u = a # b # r" and a: "is_uuid_char a" and b: "is_uuid_char b"
    by (cases u; cases "tl u") (auto simp: is_uuid_def)
  from n obtain c cs where d: "drop n t = c # cs"
    by (cases "drop n t") auto
  have nah: "no_adjacent_hex (c # cs)"
    using t no_adjacent_hex_drop [of t n] d by (simp add: tag_def)
  have lastc: "cs = [] \<Longrightarrow> \<not> is_uuid_char c"
  proof -
    assume "cs = []"
    with d have "drop n t = [c]" by simp
    with n have "last t = c"
      by (metis last_drop last.simps)
    with t show ?thesis by (simp add: tag_def)
  qed
  show "\<not> prefix (drop n t) (u @ x)"
  proof
    assume "prefix (drop n t) (u @ x)"
    with d ue have ca: "c = a" and p: "prefix cs (b # r @ x)" by simp_all
    show False
    proof (cases cs)
      case Nil
      with lastc ca a show False by simp
    next
      case (Cons c' cs')
      with p have "c' = b" by simp
      with nah Cons ca a b show False by simp
    qed
  qed
  show "\<not> prefix (u @ y) (drop n t @ x)"
  proof
    assume "prefix (u @ y) (drop n t @ x)"
    with d ue have ca: "c = a" and p: "prefix (b # r @ y) (cs @ x)" by simp_all
    show False
    proof (cases cs)
      case Nil
      with lastc ca a show False by simp
    next
      case (Cons c' cs')
      with p have "c' = b" by simp
      with nah Cons ca a b show False by simp
    qed
  qed
qed

lemma prefix_nth: "prefix p s \<Longrightarrow> i < length p \<Longrightarrow> p ! i = s ! i"
  by (auto simp: prefix_def nth_append)

lemma prefix_same_length:
  "length K = length N \<Longrightarrow> prefix (K @ T) (N @ Y) \<longleftrightarrow> K = N \<and> prefix T Y"
  by (auto simp: prefix_def)

lemma uuid_nth: "is_uuid u \<Longrightarrow> i < 24 \<Longrightarrow> is_uuid_char (u ! i)"
  by (simp add: is_uuid_def list_all_length)

lemma pattern_start:
  assumes K: "is_uuid K" and N: "is_uuid N"
    and diff: "K \<noteq> N \<or> (\<not> prefix T T' \<and> \<not> prefix T' T)"
  shows "\<not> prefix (K @ T) (N @ T' @ x)"
proof
  assume "prefix (K @ T) (N @ T' @ x)"
  with K N have e: "K = N" and p: "prefix T (T' @ x)"
    by (simp_all add: prefix_same_length is_uuid_def)
  from p have "prefix T T' \<or> prefix T' T"
    by (auto simp: prefix_append)
  with e diff show False by simp
qed

lemma pattern_str:
  assumes K: "is_uuid K" and N: "is_uuid N" and T: "tag T" and T': "tag T'"
    and diff: "K \<noteq> N \<or> (\<not> prefix T T' \<and> \<not> prefix T' T)"
    and j: "j < length (K @ T)"
  shows "\<not> prefix (drop j (K @ T)) ((N @ T') @ x)"
proof -
  have lK: "length K = 24" and lN: "length N = 24"
    using K N by (simp_all add: is_uuid_def)
  from T have Tne: "T \<noteq> []" and T0: "\<not> is_uuid_char (T ! 0)"
    by (auto simp: tag_def hd_conv_nth)
  consider "j = 0" | "0 < j \<and> j < 24" | "24 \<le> j" by linarith
  then show ?thesis
  proof cases
    case 1
    with pattern_start [OF K N diff] show ?thesis by simp
  next
    case 2
    show ?thesis
    proof
      assume p: "prefix (drop j (K @ T)) ((N @ T') @ x)"
      have "24 - j < length (drop j (K @ T))"
        using 2 lK Tne by (cases T) auto
      from prefix_nth [OF p this]
      have "drop j (K @ T) ! (24 - j) = ((N @ T') @ x) ! (24 - j)" .
      moreover have "drop j (K @ T) ! (24 - j) = (K @ T) ! (j + (24 - j))"
        using 2 lK by (intro nth_drop) simp
      moreover have "j + (24 - j) = 24"
        using 2 by simp
      moreover have "(K @ T) ! 24 = T ! 0"
        using lK by (simp add: nth_append)
      moreover have "((N @ T') @ x) ! (24 - j) = N ! (24 - j)"
        using 2 lN by (simp add: nth_append)
      moreover have "is_uuid_char (N ! (24 - j))"
        using 2 by (intro uuid_nth [OF N]) simp
      ultimately show False using T0 by simp
    qed
  next
    case 3
    with lK have d: "drop j (K @ T) = drop (j - 24) T" by simp
    from 3 j lK have "j - 24 < length T" by simp
    from tag_suffix_no_uuid_start(1) [OF T this N, of "T' @ x"] show ?thesis
      unfolding d by simp
  qed
qed

lemma pattern_str2:
  assumes K: "is_uuid K" and N: "is_uuid N" and T: "tag T" and T': "tag T'"
    and diff: "K \<noteq> N \<or> (\<not> prefix T T' \<and> \<not> prefix T' T)"
    and k: "k < length (N @ T')"
  shows "\<not> prefix (K @ T) (drop k (N @ T') @ x)"
proof -
  have lK: "length K = 24" and lN: "length N = 24"
    using K N by (simp_all add: is_uuid_def)
  from T have Tne: "T \<noteq> []"
    by (simp add: tag_def)
  from T' have T'ne: "T' \<noteq> []" and T'0: "\<not> is_uuid_char (T' ! 0)"
    by (auto simp: tag_def hd_conv_nth)
  consider "k = 0" | "0 < k \<and> k < 24" | "24 \<le> k" by linarith
  then show ?thesis
  proof cases
    case 1
    with pattern_start [OF K N diff] show ?thesis by simp
  next
    case 2
    show ?thesis
    proof
      assume p: "prefix (K @ T) (drop k (N @ T') @ x)"
      have "24 - k < length (K @ T)"
        using 2 lK by simp arith
      from prefix_nth [OF p this]
      have "(K @ T) ! (24 - k) = (drop k (N @ T') @ x) ! (24 - k)" .
      moreover have "(K @ T) ! (24 - k) = K ! (24 - k)"
        using 2 lK by (simp add: nth_append)
      moreover have "(drop k (N @ T') @ x) ! (24 - k) = drop k (N @ T') ! (24 - k)"
        using 2 lN T'ne by (cases T') (auto simp: nth_append)
      moreover have "drop k (N @ T') ! (24 - k) = (N @ T') ! (k + (24 - k))"
        using 2 lN by (intro nth_drop) simp
      moreover have "k + (24 - k) = 24"
        using 2 by simp
      moreover have "(N @ T') ! 24 = T' ! 0"
        using lN by (simp add: nth_append)
      moreover have "is_uuid_char (K ! (24 - k))"
        using 2 by (intro uuid_nth [OF K]) simp
      ultimately show False using T'0 by simp
    qed
  next
    case 3
    with lN have d: "drop k (N @ T') = drop (k - 24) T'" by simp
    from 3 k lN have "k - 24 < length T'" by simp
    from tag_suffix_no_uuid_start(2) [OF T' this K, of T x] show ?thesis
      unfolding d by simp
  qed
qed

lemma count_sub_absent: "\<not> sublist sub s \<Longrightarrow> count_sub sub s = 0"
proof (induction s)
  case Nil
  then show ?case by auto
next
  case (Cons c cs)
  then have "sub \<noteq> []" and "\<not> prefix sub (c # cs)" and "\<not> sublist sub cs"
    by (auto simp: sublist_Cons_right)
  with Cons.IH show ?case by simp
qed

lemma table_keys: "distinct (map fst collision_fixes)"
  by code_simp

lemma table_names: "distinct (map snd collision_fixes)"
  by code_simp

lemma table_shape: "\<forall>(k, n) \<in> set collision_fixes. is_uuid k \<and> tag (ref_tag n)"
  by code_simp

lemma table_tags:
  "\<forall>(k, n) \<in> set collision_fixes. \<forall>(k', n') \<in> set collision_fixes.
     n \<noteq> n' \<longrightarrow> \<not> prefix (ref_tag n) (ref_tag n')"
  by code_simp

lemma table_lookup:
  "map_of collision_fixes old = Some name \<longleftrightarrow> (old, name) \<in> set collision_fixes"
  using table_keys by (rule map_of_eq_Some_iff)

lemma table_same_name:
  assumes "(k, n) \<in> set collision_fixes" and "(k', n) \<in> set collision_fixes"
  shows "k = k'"
proof -
  from table_names have "inj_on snd (set collision_fixes)"
    unfolding distinct_map by (rule conjunct2)
  from inj_onD [OF this _ assms] show ?thesis by simp
qed

lemma table_entry:
  assumes "(k, n) \<in> set collision_fixes"
  shows "is_uuid k" and "tag (ref_tag n)"
  using bspec [OF table_shape assms] by simp_all

lemma table_tags_differ:
  assumes "(k, n) \<in> set collision_fixes" and "(k', n') \<in> set collision_fixes" and "n \<noteq> n'"
  shows "\<not> prefix (ref_tag n) (ref_tag n')"
proof -
  note a = bspec [OF table_tags assms(1), unfolded prod.case]
  note b = bspec [OF a assms(2), unfolded prod.case]
  from b assms(3) show ?thesis by (rule mp)
qed

text \<open>One step of the second loop of the precise fixer, on an entry of the table.\<close>

lemma parents_step_keeps:
  assumes new: "is_uuid new" "new \<noteq> old"
    and entry: "(old, name) \<in> set collision_fixes"
    and other: "(k, n) \<in> set collision_fixes"
    and absent: "\<not> sublist (k @ ref_tag n) s"
  shows "\<not> sublist (k @ ref_tag n) (replace (old @ ref_tag name) (new @ ref_tag name) s)"
proof -
  note K = table_entry(1) [OF other] and T = table_entry(2) [OF other]
    and T' = table_entry(2) [OF entry]
  have diff: "k \<noteq> new \<or> (\<not> prefix (ref_tag n) (ref_tag name) \<and> \<not> prefix (ref_tag name) (ref_tag n))"
  proof (cases "n = name")
    case True
    from other have "(k, name) \<in> set collision_fixes" unfolding True .
    from table_same_name [OF this entry] new(2) show ?thesis by simp
  next
    case False
    then have "name \<noteq> n" by simp
    from table_tags_differ [OF other entry False] table_tags_differ [OF entry other this]
    show ?thesis by simp
  qed
  show ?thesis
  proof (rule replace_no_new [OF _ _ _ absent])
    show "old @ ref_tag name \<noteq> []"
      by (simp add: ref_tag_def)
    show "\<not> prefix (drop j (k @ ref_tag n)) ((new @ ref_tag name) @ x)"
      if "j < length (k @ ref_tag n)" for j x
      using K new(1) T T' diff that by (rule pattern_str)
    show "\<not> prefix (k @ ref_tag n) (drop i (new @ ref_tag name) @ x)"
      if "i < length (new @ ref_tag name)" for i x
      using K new(1) T T' diff that by (rule pattern_str2)
  qed
qed

lemma parents_step_clears:
  assumes new: "is_uuid new" "new \<noteq> old"
    and entry: "(old, name) \<in> set collision_fixes"
  shows "\<not> sublist (old @ ref_tag name) (replace (old @ ref_tag name) (new @ ref_tag name) s)"
proof -
  note K = table_entry(1) [OF entry] and T = table_entry(2) [OF entry]
  from new(2) have diff: "old \<noteq> new \<or>
      (\<not> prefix (ref_tag name) (ref_tag name) \<and> \<not> prefix (ref_tag name) (ref_tag name))"
    by simp
  show ?thesis
  proof (rule replace_removes)
    show "old @ ref_tag name \<noteq> []"
      by (simp add: ref_tag_def)
    show "\<not> prefix (drop j (old @ ref_tag name)) ((new @ ref_tag name) @ x)"
      if "j < length (old @ ref_tag name)" for j x
      using K new(1) T T diff that by (rule pattern_str)
    show "\<not> prefix (old @ ref_tag name) (drop i (new @ ref_tag name) @ x)"
      if "i < length (new @ ref_tag name)" for i x
      using K new(1) T T diff that by (rule pattern_str2)
  qed
qed

lemma count_sub_zero: "count_sub sub s = 0 \<Longrightarrow> replace sub new s = s"
proof (induction s)
  case Nil
  then show ?case by (simp split: if_splits)
next
  case (Cons c cs)
  then show ?case by (simp split: if_splits)
qed

lemma parents_Cons:
  assumes "map_of collision_fixes old = Some name"
  shows "precise_fix_parent_references ((old, new) # rest) s =
         precise_fix_parent_references rest (replace (old @ ref_tag name) (new @ ref_tag name) s)"
  using assms count_sub_zero [of "old @ ref_tag name" s "new @ ref_tag name"]
  by (simp add: ref_tag_def Let_def)

lemma groups_Cons:
  assumes "map_of collision_fixes old = Some name"
  shows "precise_fix_group_definitions ((old, new) # rest) s =
         precise_fix_group_definitions rest
           (replace ((old @ ref_tag name) @ '' = {'') ((new @ ref_tag name) @ '' = {'') s)"
  using assms replace_absent [of "(old @ ref_tag name) @ '' = {''" s "(new @ ref_tag name) @ '' = {''"]
  by (simp add: ref_tag_def Let_def)

lemma parents_None:
  "map_of collision_fixes old = None \<Longrightarrow>
   precise_fix_parent_references ((old, new) # rest) s = None"
  by simp

lemma parents_keep:
  assumes "precise_fix_parent_references m s = Some s'"
    and "\<forall>(old, new) \<in> set m. is_uuid new \<and> new \<noteq> old"
    and "(k, n) \<in> set collision_fixes" and "\<not> sublist (k @ ref_tag n) s"
  shows "\<not> sublist (k @ ref_tag n) s'"
  using assms(1,2,4)
proof (induction m arbitrary: s)
  case Nil
  then show ?case by simp
next
  case (Cons p m)
  obtain old new where p: "p = (old, new)" by (cases p)
  from Cons.prems(2) p have new: "is_uuid new" "new \<noteq> old" and rest:
    "\<forall>(old, new) \<in> set m. is_uuid new \<and> new \<noteq> old"
    by simp_all
  from Cons.prems(1) p obtain name where name: "map_of collision_fixes old = Some name"
    by (cases "map_of collision_fixes old") (simp_all add: parents_None)
  then have entry: "(old, name) \<in> set collision_fixes"
    by (simp add: table_lookup)
  let ?s1 = "replace (old @ ref_tag name) (new @ ref_tag name) s"
  from Cons.prems(1) have r: "precise_fix_parent_references m ?s1 = Some s'"
    unfolding p parents_Cons [OF name] .
  have "\<not> sublist (k @ ref_tag n) ?s1"
    using new entry assms(3) Cons.prems(3) by (rule parents_step_keeps)
  with Cons.IH [OF r rest] show ?case .
qed

lemma parents_clear:
  assumes "precise_fix_parent_references m s = Some s'"
    and "\<forall>(old, new) \<in> set m. is_uuid new \<and> new \<noteq> old"
    and "(k, n) \<in> set collision_fixes" and "k \<in> fst ` set m"
  shows "\<not> sublist (k @ ref_tag n) s'"
  using assms(1,2,4)
proof (induction m arbitrary: s)
  case Nil
  then show ?case by simp
next
  case (Cons p m)
  obtain old new where p: "p = (old, new)" by (cases p)
  from Cons.prems(2) p have new: "is_uuid new" "new \<noteq> old" and rest:
    "\<forall>(old, new) \<in> set m. is_uuid new \<and> new \<noteq> old"
    by simp_all
  from Cons.prems(1) p obtain name where name: "map_of collision_fixes old = Some name"
    by (cases "map_of collision_fixes old") (simp_all add: parents_None)
  then have entry: "(old, name) \<in> set collision_fixes"
    by (simp add: table_lookup)
  let ?s1 = "replace (old @ ref_tag name) (new @ ref_tag name) s"
  from Cons.prems(1) have r: "precise_fix_parent_references m ?s1 = Some s'"
    unfolding p parents_Cons [OF name] .
  show ?case
  proof (cases "k = old")
    case True
    with assms(3) name have "n = name"
      by (simp add: table_lookup [symmetric])
    with True have "\<not> sublist (k @ ref_tag n) ?s1"
      using parents_step_clears [OF new entry, of s] by simp
    with parents_keep [OF r rest assms(3)] show ?thesis .
  next
    case False
    with Cons.prems(3) p have "k \<in> fst ` set m" by auto
    from Cons.IH [OF r rest this] show ?thesis .
  qed
qed

lemma sublist_longer: "sublist (a @ b) s \<Longrightarrow> sublist a s"
  by (auto simp: sublist_def)

lemma second_run_noop:
  assumes "\<forall>(k, n) \<in> set collision_fixes. \<not> sublist (k @ ref_tag n) s"
    and "fst ` set m \<subseteq> fst ` set collision_fixes"
  shows "precise_fix_group_definitions m s = Some s \<and> precise_fix_parent_references m s = Some s"
  using assms(2)
proof (induction m)
  case Nil
  show ?case by simp
next
  case (Cons p m)
  obtain old new where p: "p = (old, new)" by (cases p)
  with Cons.prems obtain name where entry: "(old, name) \<in> set collision_fixes"
    by auto
  then have name: "map_of collision_fixes old = Some name"
    by (simp add: table_lookup)
  from bspec [OF assms(1) entry] have a: "\<not> sublist (old @ ref_tag name) s"
    by simp
  then have b: "\<not> sublist ((old @ ref_tag name) @ '' = {'') s"
    using sublist_longer by blast
  from Cons have ih: "precise_fix_group_definitions m s = Some s"
    "precise_fix_parent_references m s = Some s"
    by simp_all
  show ?case
    unfolding p groups_Cons [OF name] parents_Cons [OF name]
      replace_absent [OF a] replace_absent [OF b]
    using ih by simp
qed

lemma universal_newlines_no_cr: "CHR 0x0D \<notin> set (universal_newlines s)"
  by (induction s rule: universal_newlines.induct) auto

lemma set_replace: "set (replace old new s) \<subseteq> set s \<union> set new"
proof (induction "length s" arbitrary: s rule: less_induct)
  case less
  show ?case
  proof (cases s)
    case Nil
    then show ?thesis by auto
  next
    case (Cons c cs)
    have a: "set (replace old new cs) \<subseteq> set cs \<union> set new"
      using less [of cs] Cons by simp
    have b: "set (replace old new (drop (length old - 1) cs)) \<subseteq> set cs \<union> set new"
    proof -
      have "set (replace old new (drop (length old - 1) cs))
              \<subseteq> set (drop (length old - 1) cs) \<union> set new"
        using less [of "drop (length old - 1) cs"] Cons by simp
      moreover have "set (drop (length old - 1) cs) \<subseteq> set cs"
        by (rule set_drop_subset)
      ultimately show ?thesis by blast
    qed
    from a b show ?thesis
      unfolding Cons by auto
  qed
qed

lemma uuid_plain: "is_uuid u \<Longrightarrow> CHR 0x0D \<notin> set u"
  using not_uuid_char_newlines(1) by (auto simp: is_uuid_def list_all_iff)

lemma table_plain: "\<forall>(k, n) \<in> set collision_fixes. CHR 0x0D \<notin> set (ref_tag n)"
  by code_simp

lemma replace_plain:
  assumes "CHR 0x0D \<notin> set s" and "CHR 0x0D \<notin> set new"
  shows "CHR 0x0D \<notin> set (replace old new s)"
  using set_replace [of old new s] assms by blast

lemma groups_plain:
  assumes "precise_fix_group_definitions m s = Some s'" and "CHR 0x0D \<notin> set s"
    and "\<forall>(old, new) \<in> set m. is_uuid new"
  shows "CHR 0x0D \<notin> set s'"
  using assms
proof (induction m arbitrary: s)
  case Nil
  then show ?case by simp
next
  case (Cons p m)
  obtain old new where p: "p = (old, new)" by (cases p)
  from Cons.prems(3) p have new: "is_uuid new" and rest: "\<forall>(old, new) \<in> set m. is_uuid new"
    by simp_all
  from Cons.prems(1) p obtain name where name: "map_of collision_fixes old = Some name"
    by (cases "map_of collision_fixes old") simp_all
  then have entry: "(old, name) \<in> set collision_fixes"
    by (simp add: table_lookup)
  let ?s1 = "replace ((old @ ref_tag name) @ '' = {'') ((new @ ref_tag name) @ '' = {'') s"
  from Cons.prems(1) have r: "precise_fix_group_definitions m ?s1 = Some s'"
    unfolding p groups_Cons [OF name] .
  have "CHR 0x0D \<notin> set ((new @ ref_tag name) @ '' = {'')"
    using uuid_plain [OF new] bspec [OF table_plain entry] by simp
  with Cons.prems(2) have "CHR 0x0D \<notin> set ?s1"
    by (rule replace_plain)
  from Cons.IH [OF r this rest] show ?case .
qed

lemma parents_plain:
  assumes "precise_fix_parent_references m s = Some s'" and "CHR 0x0D \<notin> set s"
    and "\<forall>(old, new) \<in> set m. is_uuid new"
  shows "CHR 0x0D \<notin> set s'"
  using assms
proof (induction m arbitrary: s)
  case Nil
  then show ?case by simp
next
  case (Cons p m)
  obtain old new where p: "p = (old, new)" by (cases p)
  from Cons.prems(3) p have new: "is_uuid new" and rest: "\<forall>(old, new) \<in> set m. is_uuid new"
    by simp_all
  from Cons.prems(1) p obtain name where name: "map_of collision_fixes old = Some name"
    by (cases "map_of collision_fixes old") (simp_all add: parents_None)
  then have entry: "(old, name) \<in> set collision_fixes"
    by (simp add: table_lookup)
  let ?s1 = "replace (old @ ref_tag name) (new @ ref_tag name) s"
  from Cons.prems(1) have r: "precise_fix_parent_references m ?s1 = Some s'"
    unfolding p parents_Cons [OF name] .
  have "CHR 0x0D \<notin> set (new @ ref_tag name)"
    using uuid_plain [OF new] bspec [OF table_plain entry] by simp
  with Cons.prems(2) have "CHR 0x0D \<notin> set ?s1"
    by (rule replace_plain)
  from Cons.IH [OF r this rest] show ?case .
qed

lemma precise_fix_project_Fixed:
  assumes "precise_fix_project rnd w = Some (PreciseFixed, w')"
  shows "\<exists>original m s1 fixed. load_project w = Some original \<and>
           precise_generate_replacement_uuids original rnd = Some m \<and>
           precise_fix_group_definitions m original = Some s1 \<and>
           precise_fix_parent_references m s1 = Some fixed \<and> validate_fix fixed \<and>
           writable w \<and> w' = w\<lparr>pbxproj := Some fixed, writes := writes w + 1\<rparr>"
  using assms
  by (auto simp: precise_fix_project_def precise_apply_fixes_def precise_save_project_def
        precise_rollback_def split: option.splits if_splits)

lemma precise_fix_project_twice:
  assumes run: "precise_fix_project rnd w = Some (PreciseFixed, w')"
    and orig: "load_project w = Some original"
    and gen: "precise_generate_replacement_uuids original rnd = Some m"
    and fresh: "\<forall>(old, new) \<in> set m. new \<noteq> old"
    and saved: "pbxproj w' = Some fixed"
    and gen': "precise_generate_replacement_uuids fixed rnd' \<noteq> None"
  shows "validate_fix fixed \<and>
         precise_fix_project rnd' w' = Some (PreciseFixed, w'\<lparr>writes := writes w' + 1\<rparr>)"
proof -
  from precise_fix_project_Fixed [OF run] orig gen saved obtain s1
    where g: "precise_fix_group_definitions m original = Some s1"
      and p: "precise_fix_parent_references m s1 = Some fixed"
      and v: "validate_fix fixed" and wr: "writable w"
      and w': "w' = w\<lparr>pbxproj := Some fixed, writes := writes w + 1\<rparr>"
    by auto
  from precise_replacement_loop_result [OF gen [unfolded precise_generate_replacement_uuids_def]]
  have keys: "map fst m = map fst collision_fixes" and shape: "\<forall>u \<in> set (map snd m). is_uuid u"
    by simp_all
  from shape have shape': "\<forall>(old, new) \<in> set m. is_uuid new"
    by auto
  with fresh have both: "\<forall>(old, new) \<in> set m. is_uuid new \<and> new \<noteq> old"
    by auto
  have clear: "\<forall>(k, n) \<in> set collision_fixes. \<not> sublist (k @ ref_tag n) fixed"
  proof (clarify)
    fix k n assume e: "(k, n) \<in> set collision_fixes"
    then have "k \<in> set (map fst collision_fixes)" by force
    with keys have "k \<in> fst ` set m" by (metis set_map)
    from parents_clear [OF p both e this]
    show "sublist (k @ ref_tag n) fixed \<Longrightarrow> False" by simp
  qed
  from orig have "CHR 0x0D \<notin> set original"
    using universal_newlines_no_cr by (auto simp: load_project_def)
  from groups_plain [OF g this shape'] have "CHR 0x0D \<notin> set s1" .
  from parents_plain [OF p this shape'] have plain: "CHR 0x0D \<notin> set fixed" .
  from load_project_plain [OF saved plain] have load': "load_project w' = Some fixed" .
  from gen' obtain m' where m': "precise_generate_replacement_uuids fixed rnd' = Some m'"
    by auto
  from precise_replacement_loop_result [OF m' [unfolded precise_generate_replacement_uuids_def]]
  have "map fst m' = map fst collision_fixes" by simp
  then have "fst ` set m' \<subseteq> fst ` set collision_fixes"
    by (metis set_map subset_refl)
  from second_run_noop [OF clear this]
  have "precise_apply_fixes rnd' fixed = Some (Some fixed)"
    by (simp add: precise_apply_fixes_def m')
  with load' v wr w' show ?thesis
    by (simp add: precise_fix_project_def precise_save_project_def)
qed

section \<open>Repairing twice\<close>

lemma precise_sample_load: "load_project sample_precise_world = Some sample_precise_project"
  by code_simp

lemma precise_sample_generate:
  "precise_generate_replacement_uuids sample_precise_project sample_entropy = Some sample_precise_map"
  by code_simp

lemma precise_sample_fresh: "\<forall>(old, new) \<in> set sample_precise_map. new \<noteq> old"
  by code_simp

lemma precise_sample_run:
  "precise_fix_project sample_entropy sample_precise_world =
     Some (PreciseFixed, \<lparr>pbxproj = Some sample_precise_fixed, writable = True, writes = 1\<rparr>)"
  by code_simp

lemma precise_sample_second:
  "precise_generate_replacement_uuids sample_precise_fixed sample_second_entropy \<noteq> None"
  by code_simp

lemma fix_project_twice:
  assumes "fix_project list_of rnd w = Some (Fixed, w')"
  shows "\<exists>fixed. pbxproj w' = Some fixed \<and> detect_collisions fixed = [] \<and> validated fixed \<and>
           fix_project list_of' rnd' w' = Some (NoCollisions, w')"
proof -
  from fix_project_Fixed [OF assms] obtain fixed
    where v: "validated fixed" and w': "w' = w\<lparr>pbxproj := Some fixed, writes := writes w + 1\<rparr>"
    by blast
  from v have d: "detect_collisions fixed = []"
    by (simp add: validated_def validated_no_collisions)
  from w' have p: "pbxproj w' = Some fixed" by simp
  then have l: "load_project w' = Some (universal_newlines fixed)"
    by (simp add: load_project_def)
  from d have "detect_collisions (universal_newlines fixed) = []"
    by (simp add: detect_collisions_universal_newlines)
  from fix_project_no_collisions [OF l this] p d v show ?thesis by blast
qed

text \<open>
  Claim C3, as the code has it. After a run of \<open>fix_project\<close> of the collision fixer
  that saved a fixed text, the detector finds no collision in the file, the four
  checks pass on it, and a second run, whatever its random source, returns at once
  and leaves the file and the number of writes as they are. After a run of the
  precise fixer that saved its text, a second run that returns passes
  \<open>validate_fix\<close> and saves the same text once more, provided that no new identifier
  of the first run is the identifier of the table that it replaces.
\<close>

theorem repair_twice:
  "(fix_project list_of rnd w = Some (Fixed, w') \<longrightarrow>
      (\<exists>fixed. pbxproj w' = Some fixed \<and> detect_collisions fixed = [] \<and> validated fixed \<and>
         fix_project list_of' rnd' w' = Some (NoCollisions, w'))) \<and>
   (precise_fix_project rnd w = Some (PreciseFixed, w') \<and> load_project w = Some original \<and>
    precise_generate_replacement_uuids original rnd = Some m \<and>
    (\<forall>(old, new) \<in> set m. new \<noteq> old) \<and> pbxproj w' = Some saved \<and>
    precise_generate_replacement_uuids saved rnd' \<noteq> None \<longrightarrow>
      validate_fix saved \<and>
      precise_fix_project rnd' w' = Some (PreciseFixed, w'\<lparr>writes := writes w' + 1\<rparr>))"
  using fix_project_twice [of list_of rnd w w' list_of' rnd']
    precise_fix_project_twice [of rnd w w' original m saved rnd']
  by blast

theorem repair_twice_witness:
  "fix_project sorted_list_of_set []
     \<lparr>pbxproj = Some sample_fixed, writable = True, writes = 1\<rparr>
   = Some (NoCollisions, \<lparr>pbxproj = Some sample_fixed, writable = True, writes = 1\<rparr>) \<and>
   precise_fix_project sample_second_entropy
     \<lparr>pbxproj = Some sample_precise_fixed, writable = True, writes = 1\<rparr>
   = Some (PreciseFixed, \<lparr>pbxproj = Some sample_precise_fixed, writable = True, writes = 2\<rparr>)"
proof -
  from repair_twice [where list_of = sorted_list_of_set and rnd = sample_entropy
      and w = sample_world
      and w' = "\<lparr>pbxproj = Some sample_fixed, writable = True, writes = 1\<rparr>"
      and list_of' = sorted_list_of_set and rnd' = "[]"]
    sample_run
  have a: "fix_project sorted_list_of_set []
     \<lparr>pbxproj = Some sample_fixed, writable = True, writes = 1\<rparr>
   = Some (NoCollisions, \<lparr>pbxproj = Some sample_fixed, writable = True, writes = 1\<rparr>)"
    by simp
  from repair_twice [where rnd = sample_entropy and w = sample_precise_world
      and w' = "\<lparr>pbxproj = Some sample_precise_fixed, writable = True, writes = 1\<rparr>"
      and original = sample_precise_project and m = sample_precise_map
      and saved = sample_precise_fixed and rnd' = sample_second_entropy]
    precise_sample_run precise_sample_load precise_sample_generate precise_sample_fresh
    precise_sample_second
  have b: "precise_fix_project sample_second_entropy
     \<lparr>pbxproj = Some sample_precise_fixed, writable = True, writes = 1\<rparr>
   = Some (PreciseFixed, \<lparr>pbxproj = Some sample_precise_fixed, writable = True, writes = 2\<rparr>)"
    by simp
  from a b show ?thesis ..
qed

text \<open>
  In the file below the last identifier of the table follows a digit, so the scan
  does not find it, and the random source of the first run yields it as the new
  identifier for itself: the first run saves the file as it is, and a second run
  saves another text.
\<close>

theorem repair_twice_counterexample:
  "precise_fix_project sample_rotated_entropy
     \<lparr>pbxproj = Some sample_misaligned, writable = True, writes = 0\<rparr>
   = Some (PreciseFixed, \<lparr>pbxproj = Some sample_misaligned, writable = True, writes = 1\<rparr>) \<and>
   precise_fix_project sample_entropy
     \<lparr>pbxproj = Some sample_misaligned, writable = True, writes = 1\<rparr>
   = Some (PreciseFixed,
       \<lparr>pbxproj = Some ''0B00000000000000000000009 /* Onboarding */'',
          writable = True, writes = 2\<rparr>)"
  by code_simp

end
